theory Spec2Isabelle
  imports Main "HOL-Library.Sublist" "HOL-Library.Multiset"
begin

section \<open>Shared vocabulary: characters, paths, exceptions\<close>

text \<open>
  Both scripts are Python. Strings are modelled as \<^typ>\<open>string\<close>, a character being
  its code point below 256: the character classes below are those of Python's
  \<^verbatim>\<open>str\<close> methods and of the \<^verbatim>\<open>re\<close> module on that range. There \<^verbatim>\<open>\s\<close>,
  \<^verbatim>\<open>str.isspace\<close> and \<^verbatim>\<open>str.strip\<close> agree on the twelve characters of \<open>is_space\<close>,
  \<^verbatim>\<open>\d\<close> matches the ten ASCII digits only, and \<^verbatim>\<open>str.lower\<close> changes the ASCII
  capitals and the capitals from 192 to 222 (215, the multiplication sign, apart).
  Python integers are \<^typ>\<open>int\<close>; counters that only grow are \<^typ>\<open>nat\<close>.
\<close>

definition code :: "char \<Rightarrow> nat" where
  "code c = of_char c"

definition is_space :: "char \<Rightarrow> bool" where
  "is_space c = (code c = 32 \<or> (9 \<le> code c \<and> code c \<le> 13) \<or> (28 \<le> code c \<and> code c \<le> 31)
                 \<or> code c = 133 \<or> code c = 160)"

definition is_digit :: "char \<Rightarrow> bool" where
  "is_digit c = (48 \<le> code c \<and> code c \<le> 57)"

definition is_az :: "char \<Rightarrow> bool" where
  "is_az c = (97 \<le> code c \<and> code c \<le> 122)"

definition lower_char :: "char \<Rightarrow> char" where
  "lower_char c =
     (if (65 \<le> code c \<and> code c \<le> 90) \<or> (192 \<le> code c \<and> code c \<le> 222 \<and> code c \<noteq> 215)
      then char_of (code c + 32) else c)"

definition lower :: "string \<Rightarrow> string" where
  "lower s = map lower_char s"

text \<open>
  A \<^verbatim>\<open>pathlib.Path\<close> is the list of its components; \<^verbatim>\<open>p / name\<close> appends one.
  \<^verbatim>\<open>Path.suffix\<close> and \<^verbatim>\<open>Path.stem\<close> split the last component at its last dot,
  unless that dot is the first or the last character of the name.
\<close>

type_synonym path = "string list"

definition path_name :: "path \<Rightarrow> string" where
  "path_name p = (if p = [] then [] else last p)"

definition after_dot :: "string \<Rightarrow> string" where
  "after_dot nm = rev (takeWhile (\<lambda>c. c \<noteq> CHR ''.'') (rev nm))"

definition has_suffix :: "string \<Rightarrow> bool" where
  "has_suffix nm = (CHR ''.'' \<in> set nm \<and> after_dot nm \<noteq> [] \<and> length (after_dot nm) + 1 < length nm)"

definition name_suffix :: "string \<Rightarrow> string" where
  "name_suffix nm = (if has_suffix nm then CHR ''.'' # after_dot nm else [])"

definition name_stem :: "string \<Rightarrow> string" where
  "name_stem nm = (if has_suffix nm then take (length nm - length (after_dot nm) - 1) nm else nm)"

definition with_suffix :: "path \<Rightarrow> string \<Rightarrow> path" where
  "with_suffix p sfx = butlast p @ [name_stem (path_name p) @ sfx]"

text \<open>What a script raises is a value: the exception's class name.\<close>

datatype exn = Exn string


section \<open>Pipeline A: centre-cropped squares and thumbnails\<close>

text \<open>
  The square/thumbnail script (\<^verbatim>\<open>iter_images\<close>, \<^verbatim>\<open>centre_crop_square\<close>,
  \<^verbatim>\<open>maybe_resize_square\<close>, \<^verbatim>\<open>make_thumbnail\<close>, \<^verbatim>\<open>save_image\<close> and
  \<^verbatim>\<open>main\<close>, which returns the exit code).

  An image is what the script reads of a Pillow image: its \<^verbatim>\<open>size\<close> pair, its
  \<^verbatim>\<open>mode\<close> and its pixel content, addressed by column and row.
\<close>

record image =
  img_size :: "int \<times> int"
  img_mode :: string
  pixel :: "int \<Rightarrow> int \<Rightarrow> nat"

text \<open>
  \<^verbatim>\<open>img.crop((left, upper, right, lower))\<close>: the region whose top-left corner is
  \<^verbatim>\<open>(left, upper)\<close>, of size \<^verbatim>\<open>(right - left, lower - upper)\<close>. The script only
  crops inside the image.
\<close>

definition crop :: "image \<Rightarrow> int \<times> int \<times> int \<times> int \<Rightarrow> image" where
  "crop img box =
     (case box of (x0, y0, x1, y1) \<Rightarrow>
        \<lparr>img_size = (x1 - x0, y1 - y0),
         img_mode = img_mode img,
         pixel = (\<lambda>x y. pixel img (x0 + x) (y0 + y))\<rparr>)"

text \<open>
  \<^verbatim>\<open>
  def centre_crop_square(img):
      w, h = img.size
      if w == h:
          return img
      side = min(w, h)
      left = (w - side) // 2
      top = (h - side) // 2
      return img.crop((left, top, left + side, top + side))
  \<close>
\<close>

definition centre_crop_square :: "image \<Rightarrow> image" where
  "centre_crop_square img =
     (case img_size img of (w, h) \<Rightarrow>
        if w = h then img
        else (let side = min w h;
                  left = (w - side) div 2;
                  top = (h - side) div 2
              in crop img (left, top, left + side, top + side)))"

text \<open>
  The Pillow calls that decode, resample, convert or touch the disk are parameters of the
  model: each returns the exception it raises or its result.
\<close>

record pil =
  image_open :: "path \<Rightarrow> exn + image"
  exif_transpose :: "image \<Rightarrow> exn + image"
  resize :: "image \<Rightarrow> int \<times> int \<Rightarrow> exn + image"
  thumbnail :: "image \<Rightarrow> int \<times> int \<Rightarrow> exn + image"
  flatten_black :: "image \<Rightarrow> exn + image"
  convert_rgb :: "image \<Rightarrow> exn + image"
  save :: "path \<Rightarrow> image \<Rightarrow> exn option"

text \<open>
  \<^verbatim>\<open>
  def maybe_resize_square(img, max_size):
      if not max_size:
          return img
      w, h = img.size
      if w <= max_size and h <= max_size:
          return img
      return img.resize((max_size, max_size), resample=Image.Resampling.LANCZOS)
  \<close>
  \<^verbatim>\<open>not max_size\<close> holds for \<^verbatim>\<open>None\<close> and for \<^verbatim>\<open>0\<close>.
\<close>

definition maybe_resize_square :: "pil \<Rightarrow> image \<Rightarrow> int option \<Rightarrow> exn + image" where
  "maybe_resize_square L img max_size =
     (case max_size of
        None \<Rightarrow> Inr img
      | Some m \<Rightarrow>
          if m = 0 then Inr img
          else (case img_size img of (w, h) \<Rightarrow>
                  if w \<le> m \<and> h \<le> m then Inr img
                  else resize L img (m, m)))"

text \<open>\<^verbatim>\<open>make_thumbnail\<close>: a copy of the image, shrunk by \<^verbatim>\<open>Image.thumbnail\<close>.\<close>

definition make_thumbnail :: "pil \<Rightarrow> image \<Rightarrow> int \<Rightarrow> exn + image" where
  "make_thumbnail L img thumb_size = thumbnail L img (thumb_size, thumb_size)"

text \<open>What a run does to the disk, in order.\<close>

datatype disk_write = Mkdir path | Save path image

text \<open>
  \<^verbatim>\<open>save_image(out_path, img)\<close>: creates the parent directory, flattens or converts
  for a JPEG target, then saves. The result is the writes performed and the exception
  raised, if any.
\<close>

definition save_image :: "pil \<Rightarrow> path \<Rightarrow> image \<Rightarrow> disk_write list \<times> exn option" where
  "save_image L out_path img =
     (let ext = lower (name_suffix (path_name out_path));
          made = [Mkdir (butlast out_path)];
          prepared =
            (if ext = ''.jpg'' \<or> ext = ''.jpeg'' then
               (if img_mode img = ''RGBA'' \<or> img_mode img = ''LA'' then flatten_black L img
                else if img_mode img \<noteq> ''RGB'' then convert_rgb L img
                else Inr img)
             else Inr img)
      in case prepared of
           Inl e \<Rightarrow> (made, Some e)
         | Inr img' \<Rightarrow>
             (case save L out_path img' of
                Some e \<Rightarrow> (made, Some e)
              | None \<Rightarrow> (made @ [Save out_path img'], None)))"

text \<open>The directory tree the script scans: \<^verbatim>\<open>exists\<close>/\<^verbatim>\<open>is_dir\<close>/\<^verbatim>\<open>is_file\<close> and the
  two globs, which list paths relative to the scanned root.\<close>

record tree =
  is_dir :: "path \<Rightarrow> bool"
  is_file :: "path \<Rightarrow> bool"
  rglob :: "path \<Rightarrow> path list"
  glob :: "path \<Rightarrow> path list"

definition SUPPORTED_EXTS :: "string list" where
  "SUPPORTED_EXTS = [''.png'', ''.jpg'', ''.jpeg'', ''.webp'', ''.bmp'', ''.gif'', ''.tif'', ''.tiff'']"

definition iter_images :: "tree \<Rightarrow> path \<Rightarrow> bool \<Rightarrow> path list" where
  "iter_images T root recursive =
     filter (\<lambda>rel. is_file T (root @ rel)
                  \<and> lower (name_suffix (path_name rel)) \<in> set SUPPORTED_EXTS)
            (if recursive then rglob T root else glob T root)"

datatype thumb_format = Same | Png | Jpg | Webp

definition format_suffix :: "thumb_format \<Rightarrow> string" where
  "format_suffix f = (case f of Same \<Rightarrow> '''' | Png \<Rightarrow> ''.png'' | Jpg \<Rightarrow> ''.jpg'' | Webp \<Rightarrow> ''.webp'')"

record args =
  folder :: string
  out :: "string option"
  inplace :: bool
  no_recursive :: bool
  max_size :: "int option"
  thumb_size :: int
  thumb_format :: thumb_format
  dry_run :: bool

datatype action_bit = Square int int int int | Square_skip | Thumb int int

datatype line =
    Folder_not_found path
  | Either_inplace_or_out
  | Dry path "action_bit list"
  | Failed path exn
  | Done nat nat nat
  | Square_output_root path
  | Thumbs_output_root path

record run =
  changed :: nat
  skipped :: nat
  failed :: nat
  printed :: "line list"
  written :: "disk_write list"

text \<open>
  The first half of the \<^verbatim>\<open>try\<close> body for one file, lines 133 to 160: what is
  computed before anything is printed or written.
\<close>

record plan =
  orig_size :: "int \<times> int"
  sq :: image
  need_square_write :: bool
  square_path :: path
  thumb_path :: path
  thumb_img :: image

definition prepare :: "pil \<Rightarrow> args \<Rightarrow> path \<Rightarrow> path \<Rightarrow> path \<Rightarrow> path \<Rightarrow> exn + plan" where
  "prepare L a in_dir square_root thumbs_root rel =
     (let src = in_dir @ rel in
      case image_open L src of Inl e \<Rightarrow> Inl e | Inr im0 \<Rightarrow>
      case exif_transpose L im0 of Inl e \<Rightarrow> Inl e | Inr im \<Rightarrow>
      case img_size im of (w, h) \<Rightarrow>
      case maybe_resize_square L (centre_crop_square im) (max_size a) of
        Inl e \<Rightarrow> Inl e | Inr sq1 \<Rightarrow>
      let need = (w \<noteq> h \<or> (max_size a \<noteq> None \<and> fst (img_size sq1) \<noteq> w));
          sq_path = (if \<not> inplace a then square_root @ rel else src);
          thumb_suffix = (if thumb_format a = Same then name_suffix (path_name sq_path)
                          else format_suffix (thumb_format a));
          th_path = with_suffix (thumbs_root @ rel) thumb_suffix
      in
      case make_thumbnail L sq1 (thumb_size a) of Inl e \<Rightarrow> Inl e | Inr th \<Rightarrow>
        Inr \<lparr>orig_size = (w, h), sq = sq1, need_square_write = need,
             square_path = sq_path, thumb_path = th_path, thumb_img = th\<rparr>)"

text \<open>The dry-run branch, lines 162 to 171: one printed line, \<^verbatim>\<open>changed += 1\<close>.\<close>

definition dry_line :: "path \<Rightarrow> plan \<Rightarrow> line" where
  "dry_line rel p =
     Dry rel [if need_square_write p
              then Square (fst (orig_size p)) (snd (orig_size p))
                          (fst (img_size (sq p))) (snd (img_size (sq p)))
              else Square_skip,
              Thumb (fst (img_size (thumb_img p))) (snd (img_size (thumb_img p)))]"

text \<open>The writing branch, lines 173 to 181: the square if needed, then the thumbnail.\<close>

definition write_out :: "pil \<Rightarrow> plan \<Rightarrow> run \<Rightarrow> run \<times> exn option" where
  "write_out L p st =
     (let (st1, r1) =
            (if need_square_write p then
               (case save_image L (square_path p) (sq p) of
                  (ws, Some e) \<Rightarrow> (st\<lparr>written := written st @ ws\<rparr>, Some e)
                | (ws, None) \<Rightarrow>
                    (st\<lparr>written := written st @ ws, changed := changed st + 1\<rparr>, None))
             else (st\<lparr>skipped := skipped st + 1\<rparr>, None))
      in case r1 of
           Some e \<Rightarrow> (st1, Some e)
         | None \<Rightarrow>
             (case save_image L (thumb_path p) (thumb_img p) of
                (ws, r2) \<Rightarrow> (st1\<lparr>written := written st1 @ ws\<rparr>, r2)))"

text \<open>
  The whole \<^verbatim>\<open>try\<close> body. It returns the run state reached and the exception that
  left the body, if any; the counters and writes made before an exception stay.
\<close>

definition process :: "pil \<Rightarrow> args \<Rightarrow> path \<Rightarrow> path \<Rightarrow> path \<Rightarrow> path \<Rightarrow> run \<Rightarrow> run \<times> exn option" where
  "process L a in_dir square_root thumbs_root rel st =
     (case prepare L a in_dir square_root thumbs_root rel of
        Inl e \<Rightarrow> (st, Some e)
      | Inr p \<Rightarrow>
          if dry_run a then
            (st\<lparr>printed := printed st @ [dry_line rel p], changed := changed st + 1\<rparr>, None)
          else write_out L p st)"

text \<open>One iteration of the \<^verbatim>\<open>for\<close> loop: the \<^verbatim>\<open>try\<close> body, then the handler.\<close>

definition visit :: "pil \<Rightarrow> args \<Rightarrow> path \<Rightarrow> path \<Rightarrow> path \<Rightarrow> run \<Rightarrow> path \<Rightarrow> run" where
  "visit L a in_dir square_root thumbs_root st rel =
     (case process L a in_dir square_root thumbs_root rel st of
        (st', None) \<Rightarrow> st'
      | (st', Some e) \<Rightarrow> st'\<lparr>failed := failed st' + 1, printed := printed st' @ [Failed rel e]\<rparr>)"

definition truthy :: "string option \<Rightarrow> bool" where
  "truthy s = (case s of None \<Rightarrow> False | Some v \<Rightarrow> v \<noteq> [])"

record result =
  exit_code :: int
  stdout :: "line list"
  writes :: "disk_write list"

text \<open>
  \<^verbatim>\<open>main()\<close> of the square/thumbnail script (here \<open>main_square\<close>, since both
  scripts call theirs \<^verbatim>\<open>main\<close>), after argument parsing: the two checks that return 2, the loop over
  \<^verbatim>\<open>iter_images\<close>, the summary, and \<^verbatim>\<open>return 0 if failed == 0 else 1\<close>.
\<close>

definition square_root_of :: "args \<Rightarrow> path" where
  "square_root_of a =
     (if inplace a then [folder a]
      else (case out a of
              Some v \<Rightarrow> if v \<noteq> [] then [v] else [folder a @ '' (square)'']
            | None \<Rightarrow> [folder a @ '' (square)'']))"

definition thumbs_root_of :: "args \<Rightarrow> path" where
  "thumbs_root_of a = square_root_of a @ [''THUMBS'']"

definition empty_run :: run where
  "empty_run = \<lparr>changed = 0, skipped = 0, failed = 0, printed = [], written = []\<rparr>"

definition main_square :: "pil \<Rightarrow> tree \<Rightarrow> args \<Rightarrow> result" where
  "main_square L T a =
     (let in_dir = [folder a] in
      if \<not> is_dir T in_dir then
        \<lparr>exit_code = 2, stdout = [Folder_not_found in_dir], writes = []\<rparr>
      else if inplace a \<and> truthy (out a) then
        \<lparr>exit_code = 2, stdout = [Either_inplace_or_out], writes = []\<rparr>
      else
        (let recursive = \<not> no_recursive a;
             square_root = square_root_of a;
             thumbs_root = thumbs_root_of a;
             st = foldl (visit L a in_dir square_root thumbs_root) empty_run
                    (iter_images T in_dir recursive)
         in \<lparr>exit_code = (if failed st = 0 then 0 else 1),
             stdout = printed st @ [Done (changed st) (skipped st) (failed st)]
                      @ (if \<not> dry_run a
                         then [Square_output_root square_root, Thumbs_output_root thumbs_root]
                         else []),
             writes = written st\<rparr>))"

text \<open>Whether the \<^verbatim>\<open>try\<close> body raises on a file, and the files the handler reported.\<close>

definition raises :: "pil \<Rightarrow> args \<Rightarrow> path \<Rightarrow> bool" where
  "raises L a rel =
     (snd (process L a [folder a] (square_root_of a) (thumbs_root_of a) rel empty_run) \<noteq> None)"

fun reported_failed :: "line list \<Rightarrow> path list" where
  "reported_failed [] = []"
| "reported_failed (Failed rel e # ls) = rel # reported_failed ls"
| "reported_failed (l # ls) = reported_failed ls"

text \<open>A Pillow stand-in for concrete runs: every call succeeds, resizing keeps the top-left
  pixels, a thumbnail is never larger than its source.\<close>

definition plain_pil :: "(path \<Rightarrow> exn + image) \<Rightarrow> pil" where
  "plain_pil opn =
     \<lparr>image_open = opn,
      exif_transpose = (\<lambda>im. Inr im),
      resize = (\<lambda>im sz. Inr (im\<lparr>img_size := sz\<rparr>)),
      thumbnail = (\<lambda>im sz. Inr (im\<lparr>img_size := (min (fst (img_size im)) (fst sz),
                                                  min (snd (img_size im)) (snd sz))\<rparr>)),
      flatten_black = (\<lambda>im. Inr (im\<lparr>img_mode := ''RGB''\<rparr>)),
      convert_rgb = (\<lambda>im. Inr (im\<lparr>img_mode := ''RGB''\<rparr>)),
      save = (\<lambda>p im. None)\<rparr>"

definition blank :: "int \<Rightarrow> int \<Rightarrow> image" where
  "blank w h = \<lparr>img_size = (w, h), img_mode = ''RGB'', pixel = (\<lambda>x y. nat (x + 1000 * y))\<rparr>"

text \<open>Two folders for concrete runs: \<open>pics\<close> holds a square PNG, then a GIF that Pillow
  cannot read, then a 100 by 60 JPEG; \<open>good\<close> holds the two readable images only.\<close>

definition pics_open :: "path \<Rightarrow> exn + image" where
  "pics_open p =
     (if path_name p = ''a.png'' then Inr (blank 5 5)
      else if path_name p = ''b.jpg'' then Inr (blank 100 60)
      else Inl (Exn ''UnidentifiedImageError''))"

definition pics_tree :: tree where
  "pics_tree =
     \<lparr>is_dir = (\<lambda>p. p = [''pics''] \<or> p = [''good'']),
      is_file = (\<lambda>p. True),
      rglob = (\<lambda>p. if p = [''pics''] then [[''a.png''], [''c.gif''], [''b.jpg''], [''notes.txt'']]
                     else [[''a.png''], [''b.jpg'']]),
      glob = (\<lambda>p. [])\<rparr>"

definition pics_args :: "string \<Rightarrow> args" where
  "pics_args dir =
     \<lparr>folder = dir, out = None, inplace = False, no_recursive = False, max_size = Some 32,
      thumb_size = 256, thumb_format = Same, dry_run = False\<rparr>"

definition inplace_empty_out :: args where
  "inplace_empty_out = (pics_args ''good'')\<lparr>inplace := True, out := Some ''''\<rparr>"


section \<open>Pipeline B: the fuzzy image matcher\<close>

text \<open>
  The matcher script (\<^verbatim>\<open>normalise\<close>, \<^verbatim>\<open>score\<close>, \<^verbatim>\<open>safe_filename\<close> and
  \<^verbatim>\<open>main\<close>).
\<close>

subsection \<open>The regular expressions of \<^verbatim>\<open>normalise\<close> and \<^verbatim>\<open>safe_filename\<close>\<close>

text \<open>
  \<^verbatim>\<open>$\<close> matches at the end of the string and also just before a newline that ends the
  string. Both end-anchored patterns below finish on a letter or a digit, so when the
  string ends in a newline the only place they can end is before it.
\<close>

definition dollar_split :: "string \<Rightarrow> string \<times> string" where
  "dollar_split s =
     (if s \<noteq> [] \<and> last s = CHR 0x0A then (butlast s, [CHR 0x0A]) else (s, []))"

text \<open>
  \<^verbatim>\<open>\.[a-z]{2,4}\<close> ending where \<open>s\<close> ends: the length of the match. The letters are
  the whole run of \<^verbatim>\<open>[a-z]\<close> that ends \<open>s\<close>, since the dot before them is not a letter.
\<close>

definition ext_at_end :: "string \<Rightarrow> nat option" where
  "ext_at_end s =
     (let letters = takeWhile is_az (rev s);
          rest = dropWhile is_az (rev s)
      in if 2 \<le> length letters \<and> length letters \<le> 4 \<and> rest \<noteq> [] \<and> hd rest = CHR ''.''
         then Some (length letters + 1) else None)"

definition is_sep :: "char \<Rightarrow> bool" where
  "is_sep c = (c = CHR ''_'' \<or> c = CHR ''-'')"

text \<open>
  \<^verbatim>\<open>[\s_\-]*\d+\<close> ending where \<open>s\<close> ends: the length of the leftmost match, which is
  the run of digits that ends \<open>s\<close> together with the whole run of separators before it.
\<close>

definition digits_at_end :: "string \<Rightarrow> nat option" where
  "digits_at_end s =
     (let digits = takeWhile is_digit (rev s);
          seps = takeWhile (\<lambda>c. is_space c \<or> is_sep c) (dropWhile is_digit (rev s))
      in if digits \<noteq> [] then Some (length digits + length seps) else None)"

text \<open>\<^verbatim>\<open>re.sub(pattern + '$', '', s)\<close> for such a pattern: at most one match, removed.\<close>

definition sub_at_end :: "(string \<Rightarrow> nat option) \<Rightarrow> string \<Rightarrow> string" where
  "sub_at_end match_len s =
     (case dollar_split s of (body, nl) \<Rightarrow>
        (case match_len body of
           None \<Rightarrow> s
         | Some n \<Rightarrow> take (length body - n) body @ nl))"

text \<open>
  \<^verbatim>\<open>re.sub(r'[...]+', ' ', s)\<close> for a character class \<open>P\<close>: each maximal run of
  characters of the class becomes one space.
\<close>

function sub_runs :: "(char \<Rightarrow> bool) \<Rightarrow> string \<Rightarrow> string" where
  "sub_runs P [] = []"
| "sub_runs P (c # cs) =
     (if P c then CHR '' '' # sub_runs P (dropWhile P cs) else c # sub_runs P cs)"
  by pat_completeness auto
termination
  by (relation "measure (\<lambda>(P, s). length s)")
     (auto simp: le_imp_less_Suc length_dropWhile_le)

text \<open>\<^verbatim>\<open>str.strip()\<close>: whitespace removed at both ends.\<close>

definition strip :: "string \<Rightarrow> string" where
  "strip s = rev (dropWhile is_space (rev (dropWhile is_space s)))"

text \<open>
  \<^verbatim>\<open>
  def normalise(text):
      text = text.lower()
      text = re.sub(r'\.[a-z]{2,4}$', '', text)
      text = re.sub(r'[\s_\-]*\d+$', '', text)
      text = re.sub(r'[_\-]+', ' ', text)
      text = re.sub(r'\s+', ' ', text).strip()
      return text
  \<close>
\<close>

definition normalise :: "string \<Rightarrow> string" where
  "normalise text0 =
     (let text1 = lower text0;
          text2 = sub_at_end ext_at_end text1;
          text3 = sub_at_end digits_at_end text2;
          text4 = sub_runs is_sep text3
      in strip (sub_runs is_space text4))"

text \<open>
  The shape of a string that \<^verbatim>\<open>re.sub(r'\s+', ' ', text)\<close> leaves as it is: its only
  whitespace is the space character, and no two of them are adjacent.
\<close>

fun spaced :: "string \<Rightarrow> bool" where
  "spaced [] = True"
| "spaced (c # cs) =
     ((if is_space c then c = CHR '' '' \<and> (cs = [] \<or> \<not> is_space (hd cs)) else True)
      \<and> spaced cs)"

text \<open>
  \<^verbatim>\<open>
  def safe_filename(name):
      name = re.sub(r'[\\/*?:"<>|]', '', name)
      name = re.sub(r'\s+', ' ', name).strip()
      return name
  \<close>
\<close>

definition illegal :: "char \<Rightarrow> bool" where
  "illegal c = (c \<in> set [CHR 0x5C, CHR ''/'', CHR ''*'', CHR ''?'', CHR '':'', CHR 0x22,
                          CHR ''<'', CHR ''>'', CHR ''|''])"

definition safe_filename :: "string \<Rightarrow> string" where
  "safe_filename name0 = strip (sub_runs is_space (filter (\<lambda>c. \<not> illegal c) name0))"

subsection \<open>The composite score\<close>

text \<open>The four metrics of \<^verbatim>\<open>thefuzz.fuzz\<close> the script calls are parameters.\<close>

record fuzz =
  ratio :: "string \<Rightarrow> string \<Rightarrow> int"
  partial_ratio :: "string \<Rightarrow> string \<Rightarrow> int"
  token_sort_ratio :: "string \<Rightarrow> string \<Rightarrow> int"
  token_set_ratio :: "string \<Rightarrow> string \<Rightarrow> int"

text \<open>Python's \<^verbatim>\<open>max\<close> of the non-empty list \<open>x # xs\<close>: the first of its largest items.\<close>

definition py_max :: "int \<Rightarrow> int list \<Rightarrow> int" where
  "py_max x xs = foldl (\<lambda>best y. if best < y then y else best) x xs"

text \<open>
  \<^verbatim>\<open>
  def score(excel_norm, file_norm, excel_raw, file_raw):
      scores = [
          fuzz.ratio(excel_norm, file_norm),
          fuzz.partial_ratio(excel_norm, file_norm),
          fuzz.token_sort_ratio(excel_norm, file_norm),
          fuzz.token_set_ratio(excel_norm, file_norm),
          fuzz.ratio(excel_raw.lower(), file_raw.lower()),
      ]
      return max(scores)
  \<close>
\<close>

definition score :: "fuzz \<Rightarrow> string \<Rightarrow> string \<Rightarrow> string \<Rightarrow> string \<Rightarrow> int" where
  "score F excel_norm file_norm excel_raw file_raw =
     py_max (ratio F excel_norm file_norm)
       [partial_ratio F excel_norm file_norm,
        token_sort_ratio F excel_norm file_norm,
        token_set_ratio F excel_norm file_norm,
        ratio F (lower excel_raw) (lower file_raw)]"

subsection \<open>The run of the matcher\<close>

text \<open>The constants at the top of the script, edited by its user.\<close>

record config =
  EXCEL_FILE :: string
  IMAGE_DIR :: string
  OUTPUT_DIR :: string
  REPORT_FILE :: string
  DRY_RUN :: bool
  MIN_SCORE :: int

datatype action = COPIED | DRY_RUN_COPY | NO_MATCH' | SKIPPED_EXISTS | ALREADY_CORRECT

text \<open>The four message formats, with the values they interpolate.\<close>

datatype message =
    Below_threshold string int int
  | Exists_and_matches
  | Already_exists string string int
  | Copy_to string string int

text \<open>A row of the CSV report: one field per column.\<close>

record report_row =
  Model_Name :: string
  Action :: action
  Source_File :: string
  Target_File :: string
  Score :: int
  Top_3_Candidates :: "(string \<times> int) list"
  Message :: message

text \<open>
  The disk: what each resolved path holds. \<^verbatim>\<open>Path.resolve\<close>, the directory listing and
  the spreadsheet reader (the columns of the sheet, an empty cell being \<open>None\<close>) are
  parameters.
\<close>

datatype entry = Directory | Bytes string | Csv "report_row list"

type_synonym disk = "path \<Rightarrow> entry option"

record os =
  resolve :: "path \<Rightarrow> path"
  iterdir :: "path \<Rightarrow> string list"
  read_excel :: "path \<Rightarrow> exn + (string \<times> string option list) list"

definition path_exists :: "os \<Rightarrow> disk \<Rightarrow> path \<Rightarrow> bool" where
  "path_exists S d p = (d (resolve S p) \<noteq> None)"

definition path_is_file :: "os \<Rightarrow> disk \<Rightarrow> path \<Rightarrow> bool" where
  "path_is_file S d p = (case d (resolve S p) of None \<Rightarrow> False | Some Directory \<Rightarrow> False | Some _ \<Rightarrow> True)"

datatype effect = Made_dir path | Copied_file path path | Wrote_report path "report_row list"

datatype icon = Check | Tilde | Cross | Arrow | Equals

definition status_icon :: "action \<Rightarrow> icon" where
  "status_icon a = (case a of COPIED \<Rightarrow> Check | DRY_RUN_COPY \<Rightarrow> Tilde | NO_MATCH' \<Rightarrow> Cross
                    | SKIPPED_EXISTS \<Rightarrow> Arrow | ALREADY_CORRECT \<Rightarrow> Equals)"

datatype print =
    Excel_not_found path
  | Image_dir_not_found path
  | No_name_column
  | Loaded nat string
  | Found nat path
  | No_image_files
  | Progress icon string message
  | Blank_line
  | Rule_line
  | Dry_run_banner
  | Copied_count nat
  | Already_count nat
  | Skipped_count nat
  | No_match_count nat
  | Total_count nat
  | Report_saved string
  | Tip_no_match nat int
  | Tip_lower_min_score
  | Tip_check_report

record matcher =
  disk :: disk
  effects :: "effect list"
  prints :: "print list"
  report_rows :: "report_row list"
  copied :: nat
  skipped_exists :: nat
  already_exists :: nat
  no_match :: nat

definition say :: "print list \<Rightarrow> matcher \<Rightarrow> matcher" where
  "say ls st = st\<lparr>prints := prints st @ ls\<rparr>"

text \<open>\<^verbatim>\<open>output_dir.mkdir(parents=True, exist_ok=True)\<close>.\<close>

definition mkdir :: "os \<Rightarrow> path \<Rightarrow> matcher \<Rightarrow> matcher \<times> exn option" where
  "mkdir S p st =
     (case disk st (resolve S p) of
        None \<Rightarrow> (st\<lparr>disk := (disk st)(resolve S p \<mapsto> Directory),
                       effects := effects st @ [Made_dir p]\<rparr>, None)
      | Some Directory \<Rightarrow> (st, None)
      | Some _ \<Rightarrow> (st, Some (Exn ''FileExistsError'')))"

text \<open>\<^verbatim>\<open>shutil.copy2(src, dst)\<close>: the bytes of \<open>src\<close> written at \<open>dst\<close>.\<close>

definition copy2 :: "os \<Rightarrow> path \<Rightarrow> path \<Rightarrow> matcher \<Rightarrow> matcher \<times> exn option" where
  "copy2 S src dst st =
     (case disk st (resolve S src) of
        None \<Rightarrow> (st, Some (Exn ''FileNotFoundError''))
      | Some Directory \<Rightarrow> (st, Some (Exn ''IsADirectoryError''))
      | Some content \<Rightarrow>
          (st\<lparr>disk := (disk st)(resolve S dst \<mapsto> content),
              effects := effects st @ [Copied_file src dst]\<rparr>, None))"

text \<open>
  \<^verbatim>\<open>df["Name"].dropna().unique().tolist()\<close>: the non-empty cells, each kept at its
  first occurrence.
\<close>

definition dropna :: "string option list \<Rightarrow> string list" where
  "dropna cells = List.map_filter (\<lambda>c. c) cells"

definition unique :: "string list \<Rightarrow> string list" where
  "unique xs = rev (remdups (rev xs))"

definition IMAGE_EXTS :: "string list" where
  "IMAGE_EXTS = [''.png'', ''.jpg'', ''.jpeg'', ''.webp'']"

type_synonym candidate = "path \<times> string \<times> int"

definition score_of :: "candidate \<Rightarrow> int" where
  "score_of c = snd (snd c)"

text \<open>
  \<^verbatim>\<open>
  candidates = [(img_path, img_norm, score(excel_norm, img_norm, model_name, img_path.stem))
                for img_path, img_norm in image_index]
  candidates.sort(key=lambda x: x[2], reverse=True)
  \<close>
  Python's sort is stable, also with \<^verbatim>\<open>reverse=True\<close>: items with equal keys keep
  their order. That is the stable ascending sort on the negated score.
\<close>

definition candidates_for :: "fuzz \<Rightarrow> (path \<times> string) list \<Rightarrow> string \<Rightarrow> candidate list" where
  "candidates_for F image_index model_name =
     map (\<lambda>(img_path, img_norm).
            (img_path, img_norm,
             score F (normalise model_name) img_norm model_name (name_stem (path_name img_path))))
         image_index"

definition sort_candidates :: "candidate list \<Rightarrow> candidate list" where
  "sort_candidates cs = sort_key (\<lambda>(p, n, s). - s) cs"

definition target_path_for :: "config \<Rightarrow> string \<Rightarrow> path" where
  "target_path_for C model_name = [OUTPUT_DIR C, safe_filename model_name @ ''.png'']"

text \<open>
  The body of the loop over the model names, lines 145 to 200 of the script. The result
  is the state reached and the exception that left the body, if any.
\<close>

definition match_one :: "config \<Rightarrow> fuzz \<Rightarrow> os \<Rightarrow> (path \<times> string) list \<Rightarrow> matcher \<Rightarrow> string
                         \<Rightarrow> matcher \<times> exn option" where
  "match_one C F S image_index st model_name =
     (let target_path = target_path_for C model_name;
          candidates = sort_candidates (candidates_for F image_index model_name)
      in case candidates of
           [] \<Rightarrow> (st, Some (Exn ''IndexError''))
         | (best_path, best_norm, best_score) # _ \<Rightarrow>
             (let (action, message, (st1, raised)) =
                   (if best_score < MIN_SCORE C then
                      (NO_MATCH',
                       Below_threshold (path_name best_path) best_score (MIN_SCORE C),
                       (st\<lparr>no_match := no_match st + 1\<rparr>, None))
                    else if path_exists S (disk st) target_path
                            \<and> resolve S target_path = resolve S best_path then
                      (ALREADY_CORRECT,
                       Exists_and_matches,
                       (st\<lparr>already_exists := already_exists st + 1\<rparr>, None))
                    else if path_exists S (disk st) target_path then
                      (SKIPPED_EXISTS,
                       Already_exists (path_name target_path) (path_name best_path) best_score,
                       (st\<lparr>skipped_exists := skipped_exists st + 1\<rparr>, None))
                    else
                      (if DRY_RUN C then DRY_RUN_COPY else COPIED,
                       Copy_to (path_name best_path) (path_name target_path) best_score,
                       (case (if \<not> DRY_RUN C then copy2 S best_path target_path st
                              else (st, None)) of
                          (st', Some e) \<Rightarrow> (st', Some e)
                        | (st', None) \<Rightarrow> (st'\<lparr>copied := copied st' + 1\<rparr>, None))))
              in case raised of
                   Some e \<Rightarrow> (st1, Some e)
                 | None \<Rightarrow>
                     (st1\<lparr>prints := prints st1 @ [Progress (status_icon action) model_name message],
                          report_rows := report_rows st1 @
                            [\<lparr>Model_Name = model_name,
                              Action = action,
                              Source_File = (if best_score \<ge> MIN_SCORE C
                                             then path_name best_path else ''''),
                              Target_File = path_name target_path,
                              Score = best_score,
                              Top_3_Candidates =
                                map (\<lambda>(p, n, s). (path_name p, s)) (take 3 candidates),
                              Message = message\<rparr>]\<rparr>, None)))"

text \<open>The \<^verbatim>\<open>for\<close> loop: an exception leaves it at once.\<close>

fun match_all :: "config \<Rightarrow> fuzz \<Rightarrow> os \<Rightarrow> (path \<times> string) list \<Rightarrow> matcher \<Rightarrow> string list
                   \<Rightarrow> matcher \<times> exn option" where
  "match_all C F S image_index st [] = (st, None)"
| "match_all C F S image_index st (model_name # rest) =
     (case match_one C F S image_index st model_name of
        (st', Some e) \<Rightarrow> (st', Some e)
      | (st', None) \<Rightarrow> match_all C F S image_index st' rest)"

text \<open>
  The report: \<^verbatim>\<open>open(REPORT_FILE, "w")\<close> creates or empties the file, then
  \<^verbatim>\<open>report_rows[0].keys()\<close> raises when there is no row.
\<close>

definition write_report :: "config \<Rightarrow> os \<Rightarrow> matcher \<Rightarrow> matcher \<times> exn option" where
  "write_report C S st =
     (let p = [REPORT_FILE C] in
      if report_rows st = [] then
        (st\<lparr>disk := (disk st)(resolve S p \<mapsto> Csv []),
            effects := effects st @ [Wrote_report p []]\<rparr>, Some (Exn ''IndexError''))
      else
        (st\<lparr>disk := (disk st)(resolve S p \<mapsto> Csv (report_rows st)),
            effects := effects st @ [Wrote_report p (report_rows st)],
            prints := prints st @ [Report_saved (REPORT_FILE C)]\<rparr>, None))"

definition image_files_in :: "os \<Rightarrow> disk \<Rightarrow> path \<Rightarrow> path list" where
  "image_files_in S d image_dir =
     filter (\<lambda>f. lower (name_suffix (path_name f)) \<in> set IMAGE_EXTS \<and> path_is_file S d f)
            (map (\<lambda>n. image_dir @ [n]) (iterdir S image_dir))"

definition index_images :: "path list \<Rightarrow> (path \<times> string) list" where
  "index_images image_files = map (\<lambda>f. (f, normalise (name_stem (path_name f)))) image_files"

definition fresh :: "disk \<Rightarrow> matcher" where
  "fresh d = \<lparr>disk = d, effects = [], prints = [], report_rows = [],
              copied = 0, skipped_exists = 0, already_exists = 0, no_match = 0\<rparr>"

text \<open>
  \<^verbatim>\<open>main()\<close> of the matcher script (here \<open>main_matcher\<close>): the validations that
  return early, the index of the images, the loop, the summary, the report.
\<close>

definition main_matcher :: "config \<Rightarrow> fuzz \<Rightarrow> os \<Rightarrow> disk \<Rightarrow> matcher \<times> exn option" where
  "main_matcher C F S d =
     (let excel_path = [EXCEL_FILE C]; image_dir = [IMAGE_DIR C]; output_dir = [OUTPUT_DIR C];
          st0 = fresh d
      in
      if \<not> path_exists S d excel_path then
        (say [Excel_not_found (resolve S excel_path)] st0, None)
      else if \<not> path_exists S d image_dir then
        (say [Image_dir_not_found (resolve S image_dir)] st0, None)
      else
        case mkdir S output_dir st0 of (st1, Some e) \<Rightarrow> (st1, Some e) | (st1, None) \<Rightarrow>
        case read_excel S excel_path of Inl e \<Rightarrow> (st1, Some e) | Inr df \<Rightarrow>
        case map_of df ''Name'' of
          None \<Rightarrow> (say [No_name_column] st1, None)
        | Some cells \<Rightarrow>
            (let model_names = unique (dropna cells);
                 st2 = say [Loaded (length model_names) (path_name excel_path)] st1;
                 image_files = image_files_in S (disk st2) image_dir;
                 st3 = say [Found (length image_files) (resolve S image_dir)] st2
             in
             if image_files = [] then (say [No_image_files] st3, None)
             else
               case match_all C F S (index_images image_files) st3 model_names of
                 (st4, Some e) \<Rightarrow> (st4, Some e)
               | (st4, None) \<Rightarrow>
                   (let st5 = say ([Blank_line, Rule_line]
                                   @ (if DRY_RUN C then [Dry_run_banner] else [])
                                   @ [Copied_count (copied st4),
                                      Already_count (already_exists st4),
                                      Skipped_count (skipped_exists st4),
                                      No_match_count (no_match st4),
                                      Total_count (length model_names),
                                      Rule_line]) st4
                    in case write_report C S st5 of
                         (st6, Some e) \<Rightarrow> (st6, Some e)
                       | (st6, None) \<Rightarrow>
                           (if no_match st6 > 0
                            then say [Tip_no_match (no_match st6) (MIN_SCORE C),
                                      Tip_lower_min_score, Tip_check_report] st6
                            else st6, None))))"

text \<open>Stand-ins for concrete runs: a metric that only recognises equal strings, an
  operating system whose paths resolve to themselves.\<close>

definition exact_fuzz :: fuzz where
  "exact_fuzz =
     \<lparr>ratio = (\<lambda>a b. if a = b then 100 else 0),
      partial_ratio = (\<lambda>a b. if a = b then 100 else 0),
      token_sort_ratio = (\<lambda>a b. if a = b then 100 else 0),
      token_set_ratio = (\<lambda>a b. if a = b then 100 else 0)\<rparr>"

definition plain_os :: "string list \<Rightarrow> string list \<Rightarrow> os" where
  "plain_os listing names =
     \<lparr>resolve = (\<lambda>p. p),
      iterdir = (\<lambda>p. listing),
      read_excel = (\<lambda>p. Inr [(''Name'', map Some names)])\<rparr>"

text \<open>
  The resolution policy in the specification's words, to compare with the loop body:
  below the threshold, no match; else the target exists and is the best candidate's
  file, already correct; else the target exists, skipped; else copied, or in preview
  mode a dry-run copy.
\<close>

definition spec_decision :: "int \<Rightarrow> int \<Rightarrow> bool \<Rightarrow> bool \<Rightarrow> bool \<Rightarrow> action" where
  "spec_decision best_score threshold target_exists same_file preview =
     (if best_score < threshold then NO_MATCH'
      else if target_exists \<and> same_file then ALREADY_CORRECT
      else if target_exists then SKIPPED_EXISTS
      else if preview then DRY_RUN_COPY
      else COPIED)"

text \<open>A small image folder for concrete runs, with two files whose stems normalise to
  the same text.\<close>

definition knights :: "(path \<times> string) list" where
  "knights = index_images [[''old'', ''dragon.png''], [''old'', ''knight_01.jpg''],
                           [''old'', ''knight_02.png'']]"

definition demo_config :: config where
  "demo_config =
     \<lparr>EXCEL_FILE = ''units.xlsx'', IMAGE_DIR = ''old'', OUTPUT_DIR = ''new'',
      REPORT_FILE = ''report.csv'', DRY_RUN = False, MIN_SCORE = 60\<rparr>"

definition demo_disk :: disk where
  "demo_disk =
     [[''units.xlsx''] \<mapsto> Bytes ''sheet'',
      [''old''] \<mapsto> Directory,
      [''old'', ''dragon.png''] \<mapsto> Bytes ''PNG dragon'',
      [''old'', ''knight_01.jpg''] \<mapsto> Bytes ''JPEG knight one'',
      [''old'', ''knight_02.png''] \<mapsto> Bytes ''PNG knight two'']"

definition demo_os :: os where
  "demo_os = plain_os [''dragon.png'', ''knight_01.jpg'', ''knight_02.png'', ''notes.txt'']
                      [''Knight'', ''Dragon'', ''Wyvern'']"

text \<open>What every row of the report satisfies, for the invariant of the loop.\<close>

definition row_ok :: "config \<Rightarrow> report_row \<Rightarrow> bool" where
  "row_ok C row =
     ((Action row = NO_MATCH') = (Score row < MIN_SCORE C)
      \<and> (Source_File row = []) = (Action row = NO_MATCH')
      \<and> Top_3_Candidates row \<noteq> []
      \<and> Source_File row = (if Action row = NO_MATCH' then []
                            else fst (hd (Top_3_Candidates row))))"

text \<open>A state without its printed lines: what a run did, apart from what it said.\<close>

definition silent :: "matcher \<Rightarrow> matcher" where
  "silent st = st\<lparr>prints := []\<rparr>"

text \<open>Every copy among the effects went to a path that held nothing on the disk \<open>d\<close>.\<close>

definition copies_to_absent :: "os \<Rightarrow> disk \<Rightarrow> effect list \<Rightarrow> bool" where
  "copies_to_absent S d es =
     list_all (\<lambda>e. case e of Copied_file src dst \<Rightarrow> d (resolve S dst) = None | _ \<Rightarrow> True) es"

definition demo_disk_taken :: disk where
  "demo_disk_taken = demo_disk([''new'', ''Knight.png''] \<mapsto> Bytes ''earlier art'')"

text \<open>The action a preview records where a real run records \<open>COPIED\<close>.\<close>

definition as_dry :: "action \<Rightarrow> action" where
  "as_dry a = (if a = COPIED then DRY_RUN_COPY else a)"


section \<open>Properties of Pipeline A\<close>

lemma centre_crop_square_is_square:
  "fst (img_size (centre_crop_square img)) = snd (img_size (centre_crop_square img))"
  by (cases "img_size img") (simp add: centre_crop_square_def crop_def Let_def)

text \<open>
  Claim C4. For an image of width \<open>w\<close> and height \<open>h\<close>: when \<open>w = h\<close> the centre crop
  returns its input unchanged; otherwise the result is the square of side \<open>min w h\<close>
  whose pixel \<open>(x, y)\<close> is the input's pixel \<open>(x + (w - side) div 2, y + (h - side) div 2)\<close>.
  The division truncates, so on an odd difference the margin before the square is one
  pixel smaller than the margin after it. A 100 by 60 image gives a 60 by 60 square at
  horizontal offset 20 and vertical offset 0.
\<close>

theorem centre_crop_square_spec:
  "centre_crop_square img =
     (let w = fst (img_size img); h = snd (img_size img); side = min w h;
          l = (w - side) div 2; t = (h - side) div 2
      in if w = h then img
         else \<lparr>img_size = (side, side), img_mode = img_mode img,
               pixel = (\<lambda>x y. pixel img (x + l) (y + t))\<rparr>)
   \<and> (let w = fst (img_size img); h = snd (img_size img); side = min w h;
          l = (w - side) div 2; t = (h - side) div 2
      in l \<le> (w - side) - l \<and> (w - side) - l \<le> l + 1
         \<and> t \<le> (h - side) - t \<and> (h - side) - t \<le> t + 1)
   \<and> img_size (centre_crop_square (blank 100 60)) = (60, 60)
   \<and> pixel (centre_crop_square (blank 100 60)) = (\<lambda>x y. pixel (blank 100 60) (x + 20) (y + 0))"
proof (intro conjI)
  show "centre_crop_square img =
     (let w = fst (img_size img); h = snd (img_size img); side = min w h;
          l = (w - side) div 2; t = (h - side) div 2
      in if w = h then img
         else \<lparr>img_size = (side, side), img_mode = img_mode img,
               pixel = (\<lambda>x y. pixel img (x + l) (y + t))\<rparr>)"
    by (cases "img_size img")
       (simp add: centre_crop_square_def crop_def Let_def add.commute)
  show "let w = fst (img_size img); h = snd (img_size img); side = min w h;
          l = (w - side) div 2; t = (h - side) div 2
      in l \<le> (w - side) - l \<and> (w - side) - l \<le> l + 1
         \<and> t \<le> (h - side) - t \<and> (h - side) - t \<le> t + 1"
    unfolding Let_def by linarith
  show "img_size (centre_crop_square (blank 100 60)) = (60, 60)"
    by (simp add: centre_crop_square_def crop_def blank_def)
  show "pixel (centre_crop_square (blank 100 60)) = (\<lambda>x y. pixel (blank 100 60) (x + 20) (y + 0))"
    by (simp add: centre_crop_square_def crop_def blank_def add.commute)
qed

theorem centre_crop_square_spec_witness:
  "centre_crop_square (blank 7 4) =
     \<lparr>img_size = (4, 4), img_mode = ''RGB'', pixel = (\<lambda>x y. pixel (blank 7 4) (x + 1) (y + 0))\<rparr>
   \<and> centre_crop_square (blank 5 5) = blank 5 5"
  using centre_crop_square_spec [of "blank 7 4"] centre_crop_square_spec [of "blank 5 5"]
  by (simp add: blank_def)

text \<open>
  Claim C3. In Pipeline A the downscale runs on the centre-cropped image. It is triggered
  only when both dimensions of that image exceed the configured maximum, and then the
  result is Pillow's resize to exactly \<open>(max, max)\<close>; when no maximum is configured, or a
  dimension does not exceed it, the image is returned unchanged. (A maximum of 0 is read
  as no maximum.)
\<close>

theorem maybe_resize_square_spec:
  "maybe_resize_square L (centre_crop_square img) ms =
     (case ms of
        None \<Rightarrow> Inr (centre_crop_square img)
      | Some m \<Rightarrow>
          if m \<noteq> 0 \<and> m < fst (img_size (centre_crop_square img))
                   \<and> m < snd (img_size (centre_crop_square img))
          then resize L (centre_crop_square img) (m, m)
          else Inr (centre_crop_square img))"
proof (cases ms)
  case None
  then show ?thesis by (simp add: maybe_resize_square_def)
next
  case (Some m)
  obtain s t where st: "img_size (centre_crop_square img) = (s, t)"
    by (cases "img_size (centre_crop_square img)")
  with centre_crop_square_is_square [of img] have "s = t" by simp
  with Some st show ?thesis
    by (auto simp: maybe_resize_square_def)
qed

theorem maybe_resize_square_spec_witness:
  "maybe_resize_square (plain_pil (\<lambda>p. Inl (Exn ''''))) (centre_crop_square (blank 100 60)) (Some 32)
     = Inr ((centre_crop_square (blank 100 60))\<lparr>img_size := (32, 32)\<rparr>)
   \<and> maybe_resize_square (plain_pil (\<lambda>p. Inl (Exn ''''))) (centre_crop_square (blank 100 60)) (Some 60)
     = Inr (centre_crop_square (blank 100 60))
   \<and> maybe_resize_square (plain_pil (\<lambda>p. Inl (Exn ''''))) (centre_crop_square (blank 100 60)) None
     = Inr (centre_crop_square (blank 100 60))"
  using maybe_resize_square_spec [of "plain_pil (\<lambda>p. Inl (Exn ''''))" "blank 100 60" "Some 32"]
        maybe_resize_square_spec [of "plain_pil (\<lambda>p. Inl (Exn ''''))" "blank 100 60" "Some 60"]
        maybe_resize_square_spec [of "plain_pil (\<lambda>p. Inl (Exn ''''))" "blank 100 60" None]
  by (simp add: centre_crop_square_def crop_def blank_def plain_pil_def)

subsection \<open>The loop of \<open>main_square\<close>\<close>

lemma reported_failed_append:
  "reported_failed (xs @ ys) = reported_failed xs @ reported_failed ys"
  by (induction xs rule: reported_failed.induct) simp_all

lemma write_out_raised_indep:
  "snd (write_out L p st) = snd (write_out L p st')"
  unfolding write_out_def
  by (simp split: prod.splits option.splits)

lemma write_out_kept:
  "failed (fst (write_out L p st)) = failed st
   \<and> printed (fst (write_out L p st)) = printed st"
  unfolding write_out_def
  by (simp split: prod.splits option.splits)

lemma process_raised_indep:
  "snd (process L a i s t rel st) = snd (process L a i s t rel st')"
  unfolding process_def
  by (simp add: write_out_raised_indep [of L _ st st'] split: sum.splits)

lemma process_failed:
  "failed (fst (process L a i s t rel st)) = failed st"
  unfolding process_def
  by (simp add: write_out_kept split: sum.splits)

lemma process_reported:
  "reported_failed (printed (fst (process L a i s t rel st))) = reported_failed (printed st)"
  unfolding process_def
  by (simp add: write_out_kept reported_failed_append dry_line_def split: sum.splits)

lemma process_dry_written:
  "dry_run a \<Longrightarrow> written (fst (process L a i s t rel st)) = written st"
  unfolding process_def
  by (simp split: sum.splits)

lemma visit_failed:
  "failed (visit L a [folder a] (square_root_of a) (thumbs_root_of a) st rel)
     = failed st + (if raises L a rel then 1 else 0)"
proof -
  have r: "raises L a rel
             = (snd (process L a [folder a] (square_root_of a) (thumbs_root_of a) rel st) \<noteq> None)"
    unfolding raises_def by (simp add: process_raised_indep [of L a _ _ _ rel empty_run st])
  obtain st' e where p: "process L a [folder a] (square_root_of a) (thumbs_root_of a) rel st = (st', e)"
    by (cases "process L a [folder a] (square_root_of a) (thumbs_root_of a) rel st")
  have f: "failed st' = failed st"
    using process_failed [of L a "[folder a]" "square_root_of a" "thumbs_root_of a" rel st] p by simp
  show ?thesis
    using p f r by (cases e) (simp_all add: visit_def)
qed

lemma visit_reported:
  "reported_failed (printed (visit L a [folder a] (square_root_of a) (thumbs_root_of a) st rel))
     = reported_failed (printed st) @ (if raises L a rel then [rel] else [])"
proof -
  have r: "raises L a rel
             = (snd (process L a [folder a] (square_root_of a) (thumbs_root_of a) rel st) \<noteq> None)"
    unfolding raises_def by (simp add: process_raised_indep [of L a _ _ _ rel empty_run st])
  obtain st' e where p: "process L a [folder a] (square_root_of a) (thumbs_root_of a) rel st = (st', e)"
    by (cases "process L a [folder a] (square_root_of a) (thumbs_root_of a) rel st")
  have f: "reported_failed (printed st') = reported_failed (printed st)"
    using process_reported [of L a "[folder a]" "square_root_of a" "thumbs_root_of a" rel st] p
    by simp
  show ?thesis
    using p f r by (cases e) (simp_all add: visit_def reported_failed_append)
qed

lemma loop_failed:
  "failed (foldl (visit L a [folder a] (square_root_of a) (thumbs_root_of a)) st rels)
     = failed st + length (filter (raises L a) rels)"
  by (induction rels arbitrary: st) (simp_all add: visit_failed)

lemma loop_reported:
  "reported_failed
     (printed (foldl (visit L a [folder a] (square_root_of a) (thumbs_root_of a)) st rels))
     = reported_failed (printed st) @ filter (raises L a) rels"
  by (induction rels arbitrary: st) (simp_all add: visit_reported)

lemma visit_dry_written:
  "dry_run a \<Longrightarrow> written (visit L a i s t st rel) = written st"
  using process_dry_written [of a L i s t rel st]
  by (cases "process L a i s t rel st") (simp add: visit_def split: option.splits)

lemma loop_dry_written:
  "dry_run a \<Longrightarrow> written (foldl (visit L a i s t) st rels) = written st"
  by (induction rels arbitrary: st) (simp_all add: visit_dry_written)





section \<open>Properties of Pipeline B\<close>

subsection \<open>The composite score\<close>

lemma py_max_Max: "py_max x xs = Max (set (x # xs))"
proof -
  have "py_max x xs = fold max xs x"
    unfolding py_max_def foldl_conv_fold
    by (rule arg_cong [where f = "\<lambda>f. fold f xs x"]) (auto simp: max_def fun_eq_iff)
  then show ?thesis
    by (simp only: Max.set_eq_fold)
qed

text \<open>
  Claim C7. The composite score of an Excel name and a filename is the maximum of the five
  metrics: ratio, partial ratio, token-sort ratio and token-set ratio of the normalised
  strings, and ratio of the lowercased raw strings. When each of the five lies between 0
  and 100, so does the score.
\<close>

theorem score_is_max_of_five:
  "score F a_norm b_norm a_raw b_raw =
     Max {ratio F a_norm b_norm, partial_ratio F a_norm b_norm,
          token_sort_ratio F a_norm b_norm, token_set_ratio F a_norm b_norm,
          ratio F (lower a_raw) (lower b_raw)}
   \<and> ((\<forall>m \<in> {ratio F a_norm b_norm, partial_ratio F a_norm b_norm,
               token_sort_ratio F a_norm b_norm, token_set_ratio F a_norm b_norm,
               ratio F (lower a_raw) (lower b_raw)}. 0 \<le> m \<and> m \<le> 100)
        \<longrightarrow> 0 \<le> score F a_norm b_norm a_raw b_raw
            \<and> score F a_norm b_norm a_raw b_raw \<le> 100)"
proof -
  let ?M = "{ratio F a_norm b_norm, partial_ratio F a_norm b_norm,
             token_sort_ratio F a_norm b_norm, token_set_ratio F a_norm b_norm,
             ratio F (lower a_raw) (lower b_raw)}"
  have eq: "score F a_norm b_norm a_raw b_raw = Max ?M"
    by (simp add: score_def py_max_Max)
  have "Max ?M \<in> ?M"
    by (rule Max_in) simp_all
  with eq show ?thesis by metis
qed

theorem score_is_max_of_five_witness:
  "score exact_fuzz ''knight'' ''knight'' ''Knight'' ''knight_02'' = 100
   \<and> score exact_fuzz ''knight'' ''dragon'' ''Knight'' ''dragon'' = 0
   \<and> 0 \<le> score exact_fuzz ''knight'' ''knight'' ''Knight'' ''knight_02''
   \<and> score exact_fuzz ''knight'' ''knight'' ''Knight'' ''knight_02'' \<le> 100"
proof -
  have l: "lower ''Knight'' = ''knight''" "lower ''knight_02'' = ''knight_02''"
          "lower ''dragon'' = ''dragon''"
    by code_simp+
  show ?thesis
    using score_is_max_of_five [of exact_fuzz "''knight''" "''knight''" "''Knight''" "''knight_02''"]
          score_is_max_of_five [of exact_fuzz "''knight''" "''dragon''" "''Knight''" "''dragon''"]
    by (simp add: exact_fuzz_def l)
qed

subsection \<open>Ranking the candidates\<close>

lemma sort_candidates_key: "sort_candidates cs = sort_key (\<lambda>c. - score_of c) cs"
  unfolding sort_candidates_def score_of_def
  by (rule arg_cong [where f = "\<lambda>f. sort_key f cs"]) (auto simp: fun_eq_iff)

lemma sort_candidates_sorted:
  "sorted_wrt (\<lambda>a b. score_of a \<ge> score_of b) (sort_candidates cs)"
proof -
  have "sorted (map (\<lambda>c. - score_of c) (sort_candidates cs))"
    unfolding sort_candidates_key by (rule sorted_sort_key)
  then show ?thesis
    by (simp add: sorted_map sorted_wrt_iff_nth_less)
qed

lemma sort_candidates_stable:
  "filter (\<lambda>c. score_of c = k) (sort_candidates cs) = filter (\<lambda>c. score_of c = k) cs"
proof -
  have "filter (\<lambda>c. - score_of c = - k) (sort_key (\<lambda>c. - score_of c) cs)
          = filter (\<lambda>c. - score_of c = - k) cs"
    by (rule sort_key_stable)
  then show ?thesis
    by (simp add: sort_candidates_key)
qed

lemma sort_candidates_mset: "mset (sort_candidates cs) = mset cs"
  by (simp add: sort_candidates_key)

lemma sort_candidates_Nil: "(sort_candidates cs = []) = (cs = [])"
  using sort_candidates_mset [of cs] by (metis mset_zero_iff)

lemma sort_candidates_hd:
  assumes "sort_candidates cs = best # rest"
  shows "score_of best = Max (set (map score_of cs))"
    and "best = hd (filter (\<lambda>c. score_of c = Max (set (map score_of cs))) cs)"
proof -
  have ne: "cs \<noteq> []" using assms sort_candidates_Nil [of cs] by auto
  have set_eq: "set (sort_candidates cs) = set cs"
    using sort_candidates_mset [of cs] by (metis set_mset_mset)
  have ge: "score_of c \<le> score_of best" if "c \<in> set cs" for c
  proof -
    from that set_eq assms have "c = best \<or> c \<in> set rest" by auto
    moreover have "\<forall>c \<in> set rest. score_of c \<le> score_of best"
      using sort_candidates_sorted [of cs] assms by simp
    ultimately show ?thesis by auto
  qed
  have mem: "best \<in> set cs" using set_eq assms by auto
  show m: "score_of best = Max (set (map score_of cs))"
  proof (rule sym, rule Max_eqI)
    show "finite (set (map score_of cs))" by simp
    show "y \<le> score_of best" if "y \<in> set (map score_of cs)" for y
      using that ge by auto
    show "score_of best \<in> set (map score_of cs)" using mem by auto
  qed
  have "filter (\<lambda>c. score_of c = score_of best) (sort_candidates cs)
          = filter (\<lambda>c. score_of c = score_of best) cs"
    by (rule sort_candidates_stable)
  then have "best # filter (\<lambda>c. score_of c = score_of best) rest
               = filter (\<lambda>c. score_of c = score_of best) cs"
    using assms by simp
  then show "best = hd (filter (\<lambda>c. score_of c = Max (set (map score_of cs))) cs)"
    unfolding m [symmetric] by (metis list.sel(1))
qed

subsection \<open>One pass of the loop body\<close>

lemma match_one_empty:
  "sort_candidates (candidates_for F idx name) = []
   \<Longrightarrow> match_one C F S idx st name = (st, Some (Exn ''IndexError''))"
  by (simp add: match_one_def)

lemma match_one_row:
  assumes s: "sort_candidates (candidates_for F idx name) = (bp, bn, bs) # rest"
    and r: "match_one C F S idx st name = (st', None)"
  shows "\<exists>row. report_rows st' = report_rows st @ [row]
           \<and> Model_Name row = name
           \<and> Action row = spec_decision bs (MIN_SCORE C)
                             (path_exists S (disk st) (target_path_for C name))
                             (resolve S (target_path_for C name) = resolve S bp) (DRY_RUN C)
           \<and> Source_File row = (if MIN_SCORE C \<le> bs then path_name bp else [])
           \<and> Target_File row = path_name (target_path_for C name)
           \<and> Score row = bs
           \<and> Top_3_Candidates row
               = map (\<lambda>(p, n, s). (path_name p, s)) (take 3 ((bp, bn, bs) # rest))"
  using r unfolding match_one_def Let_def s
  by (auto simp: spec_decision_def copy2_def
           split: if_splits option.splits entry.splits prod.splits)

lemma match_one_disk:
  assumes s: "sort_candidates (candidates_for F idx name) = (bp, bn, bs) # rest"
    and r: "match_one C F S idx st name = (st', e)"
  shows "(disk st' = disk st \<and> effects st' = effects st)
         \<or> (e = None
            \<and> spec_decision bs (MIN_SCORE C)
                 (path_exists S (disk st) (target_path_for C name))
                 (resolve S (target_path_for C name) = resolve S bp) (DRY_RUN C) = COPIED
            \<and> disk st (resolve S bp) \<noteq> None
            \<and> disk st' = (disk st)(resolve S (target_path_for C name) := disk st (resolve S bp))
            \<and> effects st' = effects st @ [Copied_file bp (target_path_for C name)])"
  using r unfolding match_one_def Let_def s
  by (auto simp: spec_decision_def copy2_def
           split: if_splits option.splits entry.splits prod.splits)

lemma match_one_copied:
  assumes s: "sort_candidates (candidates_for F idx name) = (bp, bn, bs) # rest"
    and r: "match_one C F S idx st name = (st', None)"
    and a: "spec_decision bs (MIN_SCORE C)
                 (path_exists S (disk st) (target_path_for C name))
                 (resolve S (target_path_for C name) = resolve S bp) (DRY_RUN C) = COPIED"
  shows "disk st (resolve S bp) \<noteq> None
         \<and> disk st' = (disk st)(resolve S (target_path_for C name) := disk st (resolve S bp))
         \<and> effects st' = effects st @ [Copied_file bp (target_path_for C name)]"
  using r a unfolding match_one_def Let_def s
  by (auto simp: spec_decision_def copy2_def
           split: if_splits option.splits entry.splits prod.splits)

lemma spec_decision_COPIED:
  "(spec_decision bs m ex same dry = COPIED) = (m \<le> bs \<and> \<not> ex \<and> \<not> dry)"
  by (auto simp: spec_decision_def)

lemma match_one_raised:
  "match_one C F S idx st name = (st', Some e) \<Longrightarrow> st' = st"
  unfolding match_one_def Let_def
  by (auto simp: copy2_def
           split: list.splits if_splits option.splits entry.splits prod.splits)

lemma match_one_returns:
  assumes s: "sort_candidates (candidates_for F idx name) = (bp, bn, bs) # rest"
    and ok: "spec_decision bs (MIN_SCORE C)
               (path_exists S (disk st) (target_path_for C name))
               (resolve S (target_path_for C name) = resolve S bp) (DRY_RUN C) \<noteq> COPIED
             \<or> path_is_file S (disk st) bp"
  shows "snd (match_one C F S idx st name) = None"
  using ok unfolding match_one_def Let_def s
  by (auto simp: spec_decision_def copy2_def path_is_file_def
           split: if_splits option.splits entry.splits prod.splits)

text \<open>
  Claim C1. For every target name, the candidates are ranked by descending composite
  score, candidates of equal score keeping their enumeration order (a stable sort: the
  ranking is a permutation of the candidates, and for each score the candidates of that
  score appear as enumerated). The best candidate is therefore the first enumerated one
  of maximal score, and the action recorded for the name is exactly the specification's
  policy applied to it: \<open>NO_MATCH\<close> below the threshold, else \<open>ALREADY_CORRECT\<close> when the
  target exists and resolves to the best candidate's file, else \<open>SKIPPED_EXISTS\<close> when
  the target exists, else \<open>COPIED\<close>, or \<open>DRY_RUN_COPY\<close> in preview mode. The pass
  returns whenever no copy is due or the best candidate is a readable file.
\<close>

theorem resolution_policy:
  "sorted_wrt (\<lambda>a b. score_of b \<le> score_of a)
     (sort_candidates (candidates_for F idx name))
   \<and> mset (sort_candidates (candidates_for F idx name)) = mset (candidates_for F idx name)
   \<and> (\<forall>k. filter (\<lambda>c. score_of c = k) (sort_candidates (candidates_for F idx name))
           = filter (\<lambda>c. score_of c = k) (candidates_for F idx name))
   \<and> (\<forall>best rest.
         sort_candidates (candidates_for F idx name) = best # rest \<longrightarrow>
           best = hd (filter (\<lambda>c. score_of c
                                   = Max (set (map score_of (candidates_for F idx name))))
                             (candidates_for F idx name))
         \<and> ((spec_decision (score_of best) (MIN_SCORE C)
                (path_exists S (disk st) (target_path_for C name))
                (resolve S (target_path_for C name) = resolve S (fst best)) (DRY_RUN C)
              \<noteq> COPIED \<or> path_is_file S (disk st) (fst best))
             \<longrightarrow> snd (match_one C F S idx st name) = None)
         \<and> (snd (match_one C F S idx st name) = None \<longrightarrow>
              Action (last (report_rows (fst (match_one C F S idx st name))))
                = spec_decision (score_of best) (MIN_SCORE C)
                    (path_exists S (disk st) (target_path_for C name))
                    (resolve S (target_path_for C name) = resolve S (fst best)) (DRY_RUN C)))"
proof (intro conjI allI impI)
  show "sorted_wrt (\<lambda>a b. score_of b \<le> score_of a)
          (sort_candidates (candidates_for F idx name))"
    by (rule sort_candidates_sorted)
  show "mset (sort_candidates (candidates_for F idx name)) = mset (candidates_for F idx name)"
    by (rule sort_candidates_mset)
next
  fix k
  show "filter (\<lambda>c. score_of c = k) (sort_candidates (candidates_for F idx name))
          = filter (\<lambda>c. score_of c = k) (candidates_for F idx name)"
    by (rule sort_candidates_stable)
next
  fix best rest
  assume s: "sort_candidates (candidates_for F idx name) = best # rest"
  show "best = hd (filter (\<lambda>c. score_of c
                                  = Max (set (map score_of (candidates_for F idx name))))
                            (candidates_for F idx name))"
    using s by (rule sort_candidates_hd(2))
next
  fix best rest
  assume s: "sort_candidates (candidates_for F idx name) = best # rest"
    and ok: "spec_decision (score_of best) (MIN_SCORE C)
                (path_exists S (disk st) (target_path_for C name))
                (resolve S (target_path_for C name) = resolve S (fst best)) (DRY_RUN C)
              \<noteq> COPIED \<or> path_is_file S (disk st) (fst best)"
  obtain bp bn bs where b: "best = (bp, bn, bs)" by (cases best)
  show "snd (match_one C F S idx st name) = None"
    using match_one_returns [of F idx name bp bn bs rest C S st] s ok
    by (simp add: b score_of_def)
next
  fix best rest
  assume s: "sort_candidates (candidates_for F idx name) = best # rest"
    and r: "snd (match_one C F S idx st name) = None"
  obtain bp bn bs where b: "best = (bp, bn, bs)" by (cases best)
  obtain st' where m: "match_one C F S idx st name = (st', None)"
    using r by (cases "match_one C F S idx st name") simp
  from match_one_row [of F idx name bp bn bs rest C S st st'] s m b
  show "Action (last (report_rows (fst (match_one C F S idx st name))))
          = spec_decision (score_of best) (MIN_SCORE C)
              (path_exists S (disk st) (target_path_for C name))
              (resolve S (target_path_for C name) = resolve S (fst best)) (DRY_RUN C)"
    by (auto simp: score_of_def)
qed

lemma knights_ranked:
  "sort_candidates (candidates_for exact_fuzz knights ''Knight'')
     = [([''old'', ''knight_01.jpg''], ''knight'', 100),
        ([''old'', ''knight_02.png''], ''knight'', 100),
        ([''old'', ''dragon.png''], ''dragon'', 0)]"
  by code_simp

lemma knights_first_pass:
  "snd (match_one demo_config exact_fuzz demo_os knights (fresh demo_disk) ''Knight'') = None"
  "map Action (report_rows (fst (match_one demo_config exact_fuzz demo_os knights
                                   (fresh demo_disk) ''Knight''))) = [COPIED]"
  "map Target_File (report_rows (fst (match_one demo_config exact_fuzz demo_os knights
                                   (fresh demo_disk) ''Knight''))) = [''Knight.png'']"
  "disk (fst (match_one demo_config exact_fuzz demo_os knights (fresh demo_disk) ''Knight''))
     [''new'', ''Knight.png''] = Some (Bytes ''JPEG knight one'')"
  "effects (fst (match_one demo_config exact_fuzz demo_os knights (fresh demo_disk) ''Knight''))
     = [Copied_file [''old'', ''knight_01.jpg''] [''new'', ''Knight.png'']]"
  by code_simp+

theorem resolution_policy_witness:
  "sort_candidates (candidates_for exact_fuzz knights ''Knight'')
     = [([''old'', ''knight_01.jpg''], ''knight'', 100),
        ([''old'', ''knight_02.png''], ''knight'', 100),
        ([''old'', ''dragon.png''], ''dragon'', 0)]
   \<and> snd (match_one demo_config exact_fuzz demo_os knights (fresh demo_disk) ''Knight'') = None
   \<and> spec_decision 100 60 False False False = COPIED
   \<and> Action (last (report_rows (fst (match_one demo_config exact_fuzz demo_os knights
                                        (fresh demo_disk) ''Knight'')))) = COPIED"
proof -
  have t: "path_exists demo_os (disk (fresh demo_disk)) (target_path_for demo_config ''Knight'')
             = False"
    by code_simp
  have e: "(resolve demo_os (target_path_for demo_config ''Knight'')
              = resolve demo_os [''old'', ''knight_01.jpg'']) = False"
    by code_simp
  have d: "spec_decision 100 60 False False False = COPIED"
    by (simp add: spec_decision_def)
  show ?thesis
    using resolution_policy [of exact_fuzz knights "''Knight''" demo_config demo_os
                                "fresh demo_disk"]
          knights_ranked knights_first_pass(1) t e d
    by (simp add: score_of_def demo_config_def)
qed

subsection \<open>The rows of the report\<close>

lemma image_file_name_nonempty:
  "f \<in> set (image_files_in S d dir) \<Longrightarrow> path_name f \<noteq> []"
  by (auto simp: image_files_in_def IMAGE_EXTS_def lower_def name_suffix_def has_suffix_def
           split: if_splits)

lemma index_images_names:
  "(p, n) \<in> set (index_images (image_files_in S d dir)) \<Longrightarrow> path_name p \<noteq> []"
  using image_file_name_nonempty [of p S d dir]
  by (auto simp: index_images_def)

lemma candidates_for_paths:
  "(p, n, s) \<in> set (candidates_for F idx name) \<Longrightarrow> \<exists>n'. (p, n') \<in> set idx"
  by (auto simp: candidates_for_def)

lemma spec_decision_NO_MATCH:
  "(spec_decision bs m ex same dry = NO_MATCH') = (bs < m)"
  by (auto simp: spec_decision_def)

lemma match_one_row_ok:
  assumes names: "\<forall>(p, n) \<in> set idx. path_name p \<noteq> []"
    and m: "match_one C F S idx st name = (st', e)"
    and inv: "\<forall>row \<in> set (report_rows st). row_ok C row"
  shows "\<forall>row \<in> set (report_rows st'). row_ok C row"
proof (cases e)
  case (Some x)
  with m match_one_raised [of C F S idx st name st' x] inv show ?thesis by simp
next
  case None
  show ?thesis
  proof (cases "sort_candidates (candidates_for F idx name)")
    case Nil
    with m None show ?thesis by (simp add: match_one_empty)
  next
    case (Cons best rest)
    obtain bp bn bs where b: "best = (bp, bn, bs)" by (cases best)
    have "(bp, bn, bs) \<in> set (sort_candidates (candidates_for F idx name))"
      using Cons b by simp
    then have "(bp, bn, bs) \<in> set (candidates_for F idx name)"
      using sort_candidates_mset [of "candidates_for F idx name"] by (metis set_mset_mset)
    then obtain n' where "(bp, n') \<in> set idx"
      using candidates_for_paths by blast
    with names have ne: "path_name bp \<noteq> []" by auto
    from match_one_row [of F idx name bp bn bs rest C S st st'] Cons b m None
    obtain row where row: "report_rows st' = report_rows st @ [row]"
      and act: "Action row = spec_decision bs (MIN_SCORE C)
                               (path_exists S (disk st) (target_path_for C name))
                               (resolve S (target_path_for C name) = resolve S bp) (DRY_RUN C)"
      and src: "Source_File row = (if MIN_SCORE C \<le> bs then path_name bp else [])"
      and sc: "Score row = bs"
      and top: "Top_3_Candidates row
                  = map (\<lambda>(p, n, s). (path_name p, s)) (take 3 ((bp, bn, bs) # rest))"
      by auto
    have "row_ok C row"
      unfolding row_ok_def act src sc top spec_decision_NO_MATCH
      using ne by auto
    with inv row show ?thesis by simp
  qed
qed

lemma match_all_row_ok:
  assumes names: "\<forall>(p, n) \<in> set idx. path_name p \<noteq> []"
  shows "match_all C F S idx st names = (st', e)
         \<Longrightarrow> \<forall>row \<in> set (report_rows st). row_ok C row
         \<Longrightarrow> \<forall>row \<in> set (report_rows st'). row_ok C row"
proof (induction names arbitrary: st)
  case Nil
  then show ?case by simp
next
  case (Cons name rest)
  obtain st1 e1 where m: "match_one C F S idx st name = (st1, e1)"
    by (cases "match_one C F S idx st name")
  have ok1: "\<forall>row \<in> set (report_rows st1). row_ok C row"
    using match_one_row_ok [OF names m Cons.prems(2)] .
  show ?case
  proof (cases e1)
    case None
    with Cons.prems(1) m have "match_all C F S idx st1 rest = (st', e)" by simp
    from Cons.IH [OF this ok1] show ?thesis .
  next
    case (Some x)
    with Cons.prems(1) m have "st' = st1" by simp
    with ok1 show ?thesis by simp
  qed
qed

lemma say_fields:
  "report_rows (say ls st) = report_rows st"
  "disk (say ls st) = disk st"
  "effects (say ls st) = effects st"
  by (simp_all add: say_def)

lemma mkdir_rows: "report_rows (fst (mkdir S p st)) = report_rows st"
  by (simp add: mkdir_def split: option.splits entry.splits)

lemma write_report_rows: "report_rows (fst (write_report C S st)) = report_rows st"
  by (simp add: write_report_def Let_def)

lemma silent_say: "silent (say ls st) = silent st"
  by (simp add: silent_def say_def)

lemma silent_fields:
  "report_rows st = report_rows (silent st)"
  "disk st = disk (silent st)"
  "effects st = effects (silent st)"
  by (simp_all add: silent_def)

lemma silent_write_report:
  "silent (fst (write_report C S (say ls st))) = silent (fst (write_report C S st))"
  by (simp add: write_report_def Let_def silent_def say_def)

text \<open>
  Where a run of \<open>main_matcher\<close> ends, printed lines apart: before the loop, in the
  initial state or in the state \<open>mkdir\<close> left; or after the loop, run from a state that
  is the one \<open>mkdir\<close> left, in the state the loop ended in or in the state the report
  writer made of it.
\<close>

lemma main_matcher_shape:
  "silent (fst (main_matcher C F S d)) = silent (fresh d)
   \<or> silent (fst (main_matcher C F S d)) = silent (fst (mkdir S [OUTPUT_DIR C] (fresh d)))
   \<or> (\<exists>st3 names st4 r4.
         silent st3 = silent (fst (mkdir S [OUTPUT_DIR C] (fresh d)))
         \<and> match_all C F S (index_images (image_files_in S (disk st3) [IMAGE_DIR C])) st3 names
             = (st4, r4)
         \<and> (silent (fst (main_matcher C F S d)) = silent st4
            \<or> silent (fst (main_matcher C F S d)) = silent (fst (write_report C S st4))))"
proof -
  let ?st0 = "fresh d"
  obtain st1 r1 where mk: "mkdir S [OUTPUT_DIR C] ?st0 = (st1, r1)"
    by (cases "mkdir S [OUTPUT_DIR C] ?st0")
  have st1: "fst (mkdir S [OUTPUT_DIR C] ?st0) = st1" using mk by simp
  show ?thesis
  proof (cases "\<not> path_exists S d [EXCEL_FILE C] \<or> \<not> path_exists S d [IMAGE_DIR C]")
    case True
    then have "silent (fst (main_matcher C F S d)) = silent ?st0"
      by (auto simp: main_matcher_def Let_def silent_say)
    then show ?thesis by blast
  next
    case False
    then have ex: "path_exists S d [EXCEL_FILE C]" and im: "path_exists S d [IMAGE_DIR C]"
      by auto
    show ?thesis
    proof (cases r1)
      case (Some x)
      then have "fst (main_matcher C F S d) = st1"
        using ex im mk by (simp add: main_matcher_def Let_def)
      then show ?thesis unfolding st1 by blast
    next
      case None
      note r1 = None
      show ?thesis
      proof (cases "read_excel S [EXCEL_FILE C]")
        case (Inl x)
        then have "fst (main_matcher C F S d) = st1"
          using ex im mk r1 by (simp add: main_matcher_def Let_def)
        then show ?thesis unfolding st1 by blast
      next
        case (Inr df)
        show ?thesis
        proof (cases "map_of df ''Name''")
          case None
          then have "fst (main_matcher C F S d) = say [No_name_column] st1"
            using ex im mk r1 Inr by (simp add: main_matcher_def Let_def)
          then have "silent (fst (main_matcher C F S d)) = silent st1"
            by (simp add: silent_say)
          then show ?thesis unfolding st1 by blast
        next
          case (Some cells)
          let ?names = "unique (dropna cells)"
          let ?st2 = "say [Loaded (length ?names) (path_name [EXCEL_FILE C])] st1"
          let ?files = "image_files_in S (disk ?st2) [IMAGE_DIR C]"
          let ?st3 = "say [Found (length ?files) (resolve S [IMAGE_DIR C])] ?st2"
          have b3: "silent ?st3 = silent st1"
            by (simp add: silent_say)
          have d3: "disk ?st3 = disk ?st2" by (simp add: say_fields)
          show ?thesis
          proof (cases "?files = []")
            case True
            then have "fst (main_matcher C F S d) = say [No_image_files] ?st3"
              using ex im mk r1 Inr Some by (simp add: main_matcher_def Let_def)
            then have "silent (fst (main_matcher C F S d)) = silent st1"
              by (simp add: silent_say)
            then show ?thesis unfolding st1 by blast
          next
            case False
            obtain st4 r4 where
              ma: "match_all C F S (index_images ?files) ?st3 ?names = (st4, r4)"
              by (cases "match_all C F S (index_images ?files) ?st3 ?names")
            have ma': "match_all C F S
                         (index_images (image_files_in S (disk ?st3) [IMAGE_DIR C])) ?st3 ?names
                       = (st4, r4)"
              using ma d3 by simp
            let ?ls = "[Blank_line, Rule_line] @ (if DRY_RUN C then [Dry_run_banner] else [])
                       @ [Copied_count (copied st4), Already_count (already_exists st4),
                          Skipped_count (skipped_exists st4), No_match_count (no_match st4),
                          Total_count (length ?names), Rule_line]"
            have "fst (main_matcher C F S d) = st4
                  \<or> fst (main_matcher C F S d) = fst (write_report C S (say ?ls st4))
                  \<or> (\<exists>ls'. fst (main_matcher C F S d)
                              = say ls' (fst (write_report C S (say ?ls st4))))"
              using ex im mk r1 Inr Some False ma
              by (cases "write_report C S (say ?ls st4)")
                 (auto simp: main_matcher_def Let_def split: option.splits)
            then have fin: "silent (fst (main_matcher C F S d)) = silent st4
                  \<or> silent (fst (main_matcher C F S d)) = silent (fst (write_report C S st4))"
              by (auto simp: silent_say silent_write_report)
            show ?thesis
              using b3 ma' fin unfolding st1 by blast
          qed
        qed
      qed
    qed
  qed
qed

lemma main_matcher_rows_ok:
  "\<forall>row \<in> set (report_rows (fst (main_matcher C F S d))). row_ok C row"
proof -
  have init: "report_rows (silent (fresh d)) = []"
             "report_rows (silent (fst (mkdir S [OUTPUT_DIR C] (fresh d)))) = []"
    using mkdir_rows [of S "[OUTPUT_DIR C]" "fresh d"]
    by (simp_all add: silent_fields(1) [symmetric] fresh_def)
  have "\<forall>row \<in> set (report_rows (silent (fst (main_matcher C F S d)))). row_ok C row"
    using main_matcher_shape [of C F S d]
  proof (elim disjE exE conjE)
    assume "silent (fst (main_matcher C F S d)) = silent (fresh d)"
    then show ?thesis using init by simp
  next
    assume "silent (fst (main_matcher C F S d))
              = silent (fst (mkdir S [OUTPUT_DIR C] (fresh d)))"
    then show ?thesis using init by simp
  next
    fix st3 names st4 r4
    assume b: "silent st3 = silent (fst (mkdir S [OUTPUT_DIR C] (fresh d)))"
      and ma: "match_all C F S (index_images (image_files_in S (disk st3) [IMAGE_DIR C])) st3 names
                 = (st4, r4)"
    have names: "\<forall>(p, n) \<in> set (index_images (image_files_in S (disk st3) [IMAGE_DIR C])).
                   path_name p \<noteq> []"
      using index_images_names by blast
    have "report_rows st3 = []" using b init by (simp add: silent_fields(1) [of st3])
    with match_all_row_ok [OF names ma]
    have ok4: "\<forall>row \<in> set (report_rows st4). row_ok C row" by simp
    {
      assume "silent (fst (main_matcher C F S d)) = silent st4"
      then show ?thesis using ok4 by (simp add: silent_fields(1) [symmetric])
    next
      assume "silent (fst (main_matcher C F S d)) = silent (fst (write_report C S st4))"
      then show ?thesis using ok4 by (simp add: silent_fields(1) [symmetric] write_report_rows)
    }
  qed
  then show ?thesis
    unfolding silent_fields(1) [symmetric] .
qed


lemma match_all_names:
  "match_all C F S idx st names = (st', None)
   \<Longrightarrow> map Model_Name (report_rows st') = map Model_Name (report_rows st) @ names"
proof (induction names arbitrary: st)
  case Nil
  then show ?case by simp
next
  case (Cons name rest)
  obtain st1 e1 where m: "match_one C F S idx st name = (st1, e1)"
    by (cases "match_one C F S idx st name")
  with Cons.prems have e1: "e1 = None" and r: "match_all C F S idx st1 rest = (st', None)"
    by (cases e1; simp)+
  have "sort_candidates (candidates_for F idx name) \<noteq> []"
    using m e1 match_one_empty [of F idx name C S st] by auto
  then obtain bp bn bs tl where
    "sort_candidates (candidates_for F idx name) = (bp, bn, bs) # tl"
    by (cases "sort_candidates (candidates_for F idx name)") auto
  from match_one_row [OF this m [unfolded e1]]
  have "map Model_Name (report_rows st1) = map Model_Name (report_rows st) @ [name]"
    by auto
  with Cons.IH [OF r] show ?case by simp
qed
subsection \<open>What the run does to the disk\<close>

lemma copies_to_absent_append:
  "copies_to_absent S d (es @ es') = (copies_to_absent S d es \<and> copies_to_absent S d es')"
  by (simp add: copies_to_absent_def)

lemma silent_eq:
  assumes "silent a = silent b"
  shows "disk a = disk b" and "effects a = effects b" and "report_rows a = report_rows b"
proof -
  have "disk (silent a) = disk (silent b)" "effects (silent a) = effects (silent b)"
       "report_rows (silent a) = report_rows (silent b)"
    using assms by simp_all
  then show "disk a = disk b" and "effects a = effects b" and "report_rows a = report_rows b"
    by (simp_all add: silent_def)
qed

lemma match_one_step:
  assumes m: "match_one C F S idx st name = (st', e)"
  shows "(disk st' = disk st \<and> effects st' = effects st)
         \<or> (disk st (resolve S (target_path_for C name)) = None
            \<and> (\<exists>src content.
                  disk st' = (disk st)(resolve S (target_path_for C name) \<mapsto> content)
                  \<and> effects st' = effects st @ [Copied_file src (target_path_for C name)]))"
proof (cases "sort_candidates (candidates_for F idx name)")
  case Nil
  with m have "st' = st" by (simp add: match_one_empty)
  then show ?thesis by simp
next
  case (Cons best rest)
  obtain bp bn bs where b: "best = (bp, bn, bs)" by (cases best)
  from match_one_disk [of F idx name bp bn bs rest C S st st' e] Cons b m
  show ?thesis
    by (auto simp: spec_decision_COPIED path_exists_def)
qed

lemma match_one_le:
  assumes m: "match_one C F S idx st name = (st', e)"
  shows "map_le (disk st) (disk st')"
  using match_one_step [OF m] by (auto simp: map_le_def)

lemma match_one_copies:
  assumes m: "match_one C F S idx st name = (st', e)"
    and le: "map_le d0 (disk st)"
    and ca: "copies_to_absent S d0 (effects st)"
  shows "copies_to_absent S d0 (effects st')"
  using match_one_step [OF m]
proof
  assume "disk st' = disk st \<and> effects st' = effects st"
  with ca show ?thesis by simp
next
  assume c: "disk st (resolve S (target_path_for C name)) = None
            \<and> (\<exists>src content.
                  disk st' = (disk st)(resolve S (target_path_for C name) \<mapsto> content)
                  \<and> effects st' = effects st @ [Copied_file src (target_path_for C name)])"
  then have "d0 (resolve S (target_path_for C name)) = None"
    using le by (auto simp: map_le_def dom_def)
  with c ca show ?thesis
    by (auto simp: copies_to_absent_def)
qed

lemma match_all_le:
  "match_all C F S idx st names = (st', e) \<Longrightarrow> map_le (disk st) (disk st')"
proof (induction names arbitrary: st)
  case Nil
  then show ?case by simp
next
  case (Cons name rest)
  obtain st1 e1 where m: "match_one C F S idx st name = (st1, e1)"
    by (cases "match_one C F S idx st name")
  note one = match_one_le [OF m]
  show ?case
  proof (cases e1)
    case None
    with Cons.prems m have "match_all C F S idx st1 rest = (st', e)" by simp
    from Cons.IH [OF this] one show ?thesis by (rule map_le_trans [rotated])
  next
    case (Some x)
    with Cons.prems m have "st' = st1" by simp
    with one show ?thesis by simp
  qed
qed

lemma match_all_copies:
  "match_all C F S idx st names = (st', e)
   \<Longrightarrow> map_le d0 (disk st) \<Longrightarrow> copies_to_absent S d0 (effects st)
   \<Longrightarrow> copies_to_absent S d0 (effects st')"
proof (induction names arbitrary: st)
  case Nil
  then show ?case by simp
next
  case (Cons name rest)
  obtain st1 e1 where m: "match_one C F S idx st name = (st1, e1)"
    by (cases "match_one C F S idx st name")
  have le1: "map_le d0 (disk st1)"
    using Cons.prems(2) match_one_le [OF m] by (rule map_le_trans)
  have ca1: "copies_to_absent S d0 (effects st1)"
    using match_one_copies [OF m Cons.prems(2) Cons.prems(3)] .
  show ?case
  proof (cases e1)
    case None
    with Cons.prems(1) m have "match_all C F S idx st1 rest = (st', e)" by simp
    from Cons.IH [OF this le1 ca1] show ?thesis .
  next
    case (Some x)
    with Cons.prems(1) m have "st' = st1" by simp
    with ca1 show ?thesis by simp
  qed
qed

lemma mkdir_inv:
  "map_le d (disk (fst (mkdir S p (fresh d))))"
  "copies_to_absent S d (effects (fst (mkdir S p (fresh d))))"
  by (auto simp: mkdir_def fresh_def map_le_def copies_to_absent_def
           split: option.splits entry.splits)

lemma write_report_disk:
  "p \<noteq> resolve S [REPORT_FILE C] \<Longrightarrow> disk (fst (write_report C S st)) p = disk st p"
  by (simp add: write_report_def Let_def)

lemma write_report_copies:
  "copies_to_absent S d (effects (fst (write_report C S st))) = copies_to_absent S d (effects st)"
  by (simp add: write_report_def Let_def copies_to_absent_def)

lemma main_matcher_inv:
  "(\<forall>p. d p \<noteq> None \<and> p \<noteq> resolve S [REPORT_FILE C]
         \<longrightarrow> disk (fst (main_matcher C F S d)) p = d p)
   \<and> copies_to_absent S d (effects (fst (main_matcher C F S d)))"
proof -
  let ?M = "fst (main_matcher C F S d)"
  let ?st1 = "fst (mkdir S [OUTPUT_DIR C] (fresh d))"
  have goal: ?thesis
    if "map_le d (disk st)" "copies_to_absent S d (effects st)" "silent ?M = silent st" for st
  proof -
    have "disk ?M = disk st" "effects ?M = effects st"
      using silent_eq [OF that(3)] by simp_all
    with that(1,2) show ?thesis
      by (auto simp: map_le_def dom_def)
  qed
  from main_matcher_shape [of C F S d] show ?thesis
  proof (elim disjE exE conjE)
    assume "silent ?M = silent (fresh d)"
    then show ?thesis
      by (intro goal [of "fresh d"]) (simp_all add: fresh_def copies_to_absent_def)
  next
    assume "silent ?M = silent ?st1"
    then show ?thesis
      by (intro goal [of ?st1]) (simp_all add: mkdir_inv)
  next
    fix st3 names st4 r4
    assume b: "silent st3 = silent ?st1"
      and ma: "match_all C F S (index_images (image_files_in S (disk st3) [IMAGE_DIR C])) st3 names
                 = (st4, r4)"
    have e3: "disk st3 = disk ?st1" "effects st3 = effects ?st1"
      using silent_eq [OF b] by simp_all
    have i3: "map_le d (disk st3)" "copies_to_absent S d (effects st3)"
      unfolding e3 by (rule mkdir_inv)+
    have i4: "map_le d (disk st4)"
      using i3(1) match_all_le [OF ma] by (rule map_le_trans)
    have c4: "copies_to_absent S d (effects st4)"
      using match_all_copies [OF ma i3] .
    {
      assume "silent ?M = silent st4"
      then show ?thesis by (intro goal [of st4]) (simp_all add: i4 c4)
    next
      assume w: "silent ?M = silent (fst (write_report C S st4))"
      have dM: "disk ?M = disk (fst (write_report C S st4))"
        and eM: "effects ?M = effects (fst (write_report C S st4))"
        using silent_eq [OF w] by simp_all
      have "copies_to_absent S d (effects ?M)"
        unfolding eM write_report_copies using c4 .
      moreover have "disk ?M p = d p" if "d p \<noteq> None" "p \<noteq> resolve S [REPORT_FILE C]" for p
      proof -
        have "disk ?M p = disk st4 p"
          unfolding dM using write_report_disk [OF that(2)] .
        also have "\<dots> = d p"
          using i4 that(1) by (auto simp: map_le_def dom_def)
        finally show ?thesis .
      qed
      ultimately show ?thesis by blast
    }
  qed
qed

text \<open>
  Claim C6. The resolver never overwrites. A pass of the loop changes the disk only by a
  copy to the derived target path, and only when nothing exists at that path; so over
  the whole loop every entry that existed keeps its content, and over the whole run every
  entry that existed before the run keeps its content (the report file, which the run
  rewrites, apart) and every copy went to a path that held nothing before the run.
\<close>

theorem never_overwrites:
  "(disk (fst (match_one C F S idx st name)) = disk st
    \<or> (\<not> path_exists S (disk st) (target_path_for C name)
       \<and> (\<exists>content. disk (fst (match_one C F S idx st name))
                       = (disk st)(resolve S (target_path_for C name) \<mapsto> content))))
   \<and> (\<forall>p. disk st p \<noteq> None \<longrightarrow> disk (fst (match_all C F S idx st names)) p = disk st p)
   \<and> (\<forall>p. d p \<noteq> None \<and> p \<noteq> resolve S [REPORT_FILE C]
          \<longrightarrow> disk (fst (main_matcher C F S d)) p = d p)
   \<and> (\<forall>src dst. Copied_file src dst \<in> set (effects (fst (main_matcher C F S d)))
          \<longrightarrow> d (resolve S dst) = None)"
proof (intro conjI)
  obtain st' e where m: "match_one C F S idx st name = (st', e)"
    by (cases "match_one C F S idx st name")
  show "disk (fst (match_one C F S idx st name)) = disk st
    \<or> (\<not> path_exists S (disk st) (target_path_for C name)
       \<and> (\<exists>content. disk (fst (match_one C F S idx st name))
                       = (disk st)(resolve S (target_path_for C name) \<mapsto> content)))"
    using match_one_step [OF m] unfolding m
    by (auto simp: path_exists_def)
next
  obtain st' e where ma: "match_all C F S idx st names = (st', e)"
    by (cases "match_all C F S idx st names")
  show "\<forall>p. disk st p \<noteq> None \<longrightarrow> disk (fst (match_all C F S idx st names)) p = disk st p"
    using match_all_le [OF ma] unfolding ma by (auto simp: map_le_def dom_def)
next
  show "\<forall>p. d p \<noteq> None \<and> p \<noteq> resolve S [REPORT_FILE C]
          \<longrightarrow> disk (fst (main_matcher C F S d)) p = d p"
    using main_matcher_inv [of d S C F] by blast
next
  show "\<forall>src dst. Copied_file src dst \<in> set (effects (fst (main_matcher C F S d)))
          \<longrightarrow> d (resolve S dst) = None"
  proof (intro allI impI)
    fix src dst
    assume "Copied_file src dst \<in> set (effects (fst (main_matcher C F S d)))"
    moreover have "copies_to_absent S d (effects (fst (main_matcher C F S d)))"
      using main_matcher_inv [of d S C F] by blast
    ultimately show "d (resolve S dst) = None"
      unfolding copies_to_absent_def list_all_iff by force
  qed
qed

text \<open>
  Claim C10. When a pass copies, the target is named after the model with the suffix
  \<open>.png\<close>, whatever the extension of the best candidate, and afterwards holds exactly
  the entry the best candidate held: the bytes are copied as they are. In the demo folder
  the best candidate for \<open>Knight\<close> is a JPEG, and \<open>Knight.png\<close> receives its bytes.
\<close>

theorem copy_is_verbatim_png:
  assumes "sort_candidates (candidates_for F idx name) = (bp, bn, bs) # rest"
    and "match_one C F S idx st name = (st', None)"
    and "Action (last (report_rows st')) = COPIED"
  shows "disk st (resolve S bp) \<noteq> None
         \<and> disk st' (resolve S (target_path_for C name)) = disk st (resolve S bp)
         \<and> effects st' = effects st @ [Copied_file bp (target_path_for C name)]
         \<and> path_name (target_path_for C name) = safe_filename name @ ''.png''
         \<and> Target_File (last (report_rows st')) = safe_filename name @ ''.png''
         \<and> suffix ''.png'' (Target_File (last (report_rows st')))"
proof -
  from match_one_row [OF assms(1) assms(2)] obtain row where
    row: "report_rows st' = report_rows st @ [row]"
    and act: "Action row = spec_decision bs (MIN_SCORE C)
                             (path_exists S (disk st) (target_path_for C name))
                             (resolve S (target_path_for C name) = resolve S bp) (DRY_RUN C)"
    and tgt: "Target_File row = path_name (target_path_for C name)"
    by auto
  have "spec_decision bs (MIN_SCORE C)
           (path_exists S (disk st) (target_path_for C name))
           (resolve S (target_path_for C name) = resolve S bp) (DRY_RUN C) = COPIED"
    using assms(3) row act by simp
  from match_one_copied [OF assms(1) assms(2) this]
  have c: "disk st (resolve S bp) \<noteq> None"
    "disk st' = (disk st)(resolve S (target_path_for C name) := disk st (resolve S bp))"
    "effects st' = effects st @ [Copied_file bp (target_path_for C name)]"
    by simp_all
  have n: "path_name (target_path_for C name) = safe_filename name @ ''.png''"
    by (simp add: target_path_for_def path_name_def)
  show ?thesis
    using c n row tgt by (simp add: suffix_def)
qed

subsection \<open>The report file\<close>

lemma match_one_no_report:
  assumes m: "match_one C F S idx st name = (st', e)"
    and n: "\<forall>p rows. Wrote_report p rows \<notin> set (effects st)"
  shows "\<forall>p rows. Wrote_report p rows \<notin> set (effects st')"
  using match_one_step [OF m] n by auto

lemma match_all_no_report:
  "match_all C F S idx st names = (st', e)
   \<Longrightarrow> \<forall>p rows. Wrote_report p rows \<notin> set (effects st)
   \<Longrightarrow> \<forall>p rows. Wrote_report p rows \<notin> set (effects st')"
proof (induction names arbitrary: st)
  case Nil
  then show ?case by simp
next
  case (Cons name rest)
  obtain st1 e1 where m: "match_one C F S idx st name = (st1, e1)"
    by (cases "match_one C F S idx st name")
  note n1 = match_one_no_report [OF m Cons.prems(2)]
  show ?case
  proof (cases e1)
    case None
    with Cons.prems(1) m have "match_all C F S idx st1 rest = (st', e)" by simp
    from Cons.IH [OF this n1] show ?thesis .
  next
    case (Some x)
    with Cons.prems(1) m have "st' = st1" by simp
    with n1 show ?thesis by simp
  qed
qed

lemma mkdir_no_report:
  "\<forall>p rows. Wrote_report p rows \<notin> set (effects (fst (mkdir S q (fresh d))))"
  by (auto simp: mkdir_def fresh_def split: option.splits entry.splits)

lemma write_report_effect:
  "effects (fst (write_report C S st))
     = effects st @ [Wrote_report [REPORT_FILE C] (report_rows st)]"
  "disk (fst (write_report C S st)) (resolve S [REPORT_FILE C]) = Some (Csv (report_rows st))"
  by (simp_all add: write_report_def Let_def)

text \<open>A report that the run wrote is the file \<open>REPORT_FILE\<close>, and holds the rows of the run.\<close>

lemma main_matcher_report:
  assumes w: "Wrote_report p rows \<in> set (effects (fst (main_matcher C F S d)))"
  shows "p = [REPORT_FILE C] \<and> rows = report_rows (fst (main_matcher C F S d))
         \<and> disk (fst (main_matcher C F S d)) (resolve S p) = Some (Csv rows)"
proof -
  let ?M = "fst (main_matcher C F S d)"
  let ?st1 = "fst (mkdir S [OUTPUT_DIR C] (fresh d))"
  have none: False
    if "silent ?M = silent st" "\<forall>p rows. Wrote_report p rows \<notin> set (effects st)" for st
    using silent_eq(2) [OF that(1)] that(2) w by simp
  from main_matcher_shape [of C F S d] show ?thesis
  proof (elim disjE exE conjE)
    assume "silent ?M = silent (fresh d)"
    from none [OF this] show ?thesis by (simp add: fresh_def)
  next
    assume "silent ?M = silent ?st1"
    from none [OF this] show ?thesis by (simp add: mkdir_no_report)
  next
    fix st3 names st4 r4
    assume b: "silent st3 = silent ?st1"
      and ma: "match_all C F S (index_images (image_files_in S (disk st3) [IMAGE_DIR C])) st3 names
                 = (st4, r4)"
    have "\<forall>p rows. Wrote_report p rows \<notin> set (effects st3)"
      unfolding silent_eq(2) [OF b] by (rule mkdir_no_report)
    from match_all_no_report [OF ma this]
    have n4: "\<forall>p rows. Wrote_report p rows \<notin> set (effects st4)" .
    {
      assume "silent ?M = silent st4"
      from none [OF this n4] show ?thesis ..
    next
      assume s: "silent ?M = silent (fst (write_report C S st4))"
      have "Wrote_report p rows \<in> set (effects st4 @ [Wrote_report [REPORT_FILE C] (report_rows st4)])"
        using w unfolding silent_eq(2) [OF s] write_report_effect(1) .
      with n4 have pr: "p = [REPORT_FILE C]" "rows = report_rows st4" by auto
      have "report_rows ?M = report_rows st4"
        unfolding silent_eq(3) [OF s] by (rule write_report_rows)
      moreover have "disk ?M (resolve S [REPORT_FILE C]) = Some (Csv (report_rows st4))"
        unfolding silent_eq(1) [OF s] by (rule write_report_effect(2))
      ultimately show ?thesis using pr by simp
    }
  qed
qed

text \<open>
  Claim C9. A pass of the loop that returns adds one row for its model name: the
  \<open>Source File\<close> of the row is empty when the score of the best candidate, the head of
  the ranking, is below the threshold, which is exactly when the action is \<open>NO_MATCH\<close>,
  and is the file name of the best candidate otherwise. A loop that returns has added
  one row for every name, in order. So in a run, every row has an empty \<open>Source File\<close>
  exactly when its action is \<open>NO_MATCH\<close>, exactly when its score is below the threshold,
  and every other row holds the file name of the best candidate, the first of its top
  three; and the CSV file that the run writes holds these rows.
\<close>

theorem report_source_file:
  "(\<forall>bp bn bs rest st'.
      sort_candidates (candidates_for F idx name) = (bp, bn, bs) # rest
      \<and> match_one C F S idx st name = (st', None)
      \<longrightarrow> (\<exists>row. report_rows st' = report_rows st @ [row]
                 \<and> Model_Name row = name
                 \<and> Score row = bs
                 \<and> (Action row = NO_MATCH') = (bs < MIN_SCORE C)
                 \<and> Source_File row = (if bs < MIN_SCORE C then [] else path_name bp)))
   \<and> (\<forall>st'. match_all C F S idx st names = (st', None)
         \<longrightarrow> map Model_Name (report_rows st') = map Model_Name (report_rows st) @ names)
   \<and> (\<forall>row \<in> set (report_rows (fst (main_matcher C F S d))).
         (Action row = NO_MATCH') = (Score row < MIN_SCORE C)
         \<and> (Source_File row = []) = (Action row = NO_MATCH')
         \<and> Top_3_Candidates row \<noteq> []
         \<and> Source_File row = (if Action row = NO_MATCH' then []
                               else fst (hd (Top_3_Candidates row))))
   \<and> (\<forall>p rows. Wrote_report p rows \<in> set (effects (fst (main_matcher C F S d)))
         \<longrightarrow> p = [REPORT_FILE C]
             \<and> rows = report_rows (fst (main_matcher C F S d))
             \<and> disk (fst (main_matcher C F S d)) (resolve S p) = Some (Csv rows))"
proof (intro conjI allI impI)
  fix bp bn bs rest st'
  assume "sort_candidates (candidates_for F idx name) = (bp, bn, bs) # rest
          \<and> match_one C F S idx st name = (st', None)"
  then have s: "sort_candidates (candidates_for F idx name) = (bp, bn, bs) # rest"
    and m: "match_one C F S idx st name = (st', None)" by simp_all
  from match_one_row [OF s m] obtain row where
    "report_rows st' = report_rows st @ [row]" "Model_Name row = name" "Score row = bs"
    "Action row = spec_decision bs (MIN_SCORE C)
                    (path_exists S (disk st) (target_path_for C name))
                    (resolve S (target_path_for C name) = resolve S bp) (DRY_RUN C)"
    "Source_File row = (if MIN_SCORE C \<le> bs then path_name bp else [])"
    by auto
  then show "\<exists>row. report_rows st' = report_rows st @ [row]
                 \<and> Model_Name row = name
                 \<and> Score row = bs
                 \<and> (Action row = NO_MATCH') = (bs < MIN_SCORE C)
                 \<and> Source_File row = (if bs < MIN_SCORE C then [] else path_name bp)"
    by (auto simp: spec_decision_NO_MATCH)
next
  fix st'
  assume "match_all C F S idx st names = (st', None)"
  then show "map Model_Name (report_rows st') = map Model_Name (report_rows st) @ names"
    by (rule match_all_names)
next
  show "\<forall>row \<in> set (report_rows (fst (main_matcher C F S d))).
         (Action row = NO_MATCH') = (Score row < MIN_SCORE C)
         \<and> (Source_File row = []) = (Action row = NO_MATCH')
         \<and> Top_3_Candidates row \<noteq> []
         \<and> Source_File row = (if Action row = NO_MATCH' then []
                               else fst (hd (Top_3_Candidates row)))"
    using main_matcher_rows_ok [of C F S d] unfolding row_ok_def by blast
next
  fix p rows
  assume w: "Wrote_report p rows \<in> set (effects (fst (main_matcher C F S d)))"
  from main_matcher_report [OF w]
  show "p = [REPORT_FILE C]"
    and "rows = report_rows (fst (main_matcher C F S d))"
    and "disk (fst (main_matcher C F S d)) (resolve S p) = Some (Csv rows)"
    by blast+
qed

subsection \<open>The demo run\<close>

lemma demo_rows:
  "map (\<lambda>row. (Model_Name row, Action row, Source_File row, Score row))
       (report_rows (fst (main_matcher demo_config exact_fuzz demo_os demo_disk)))
     = [(''Knight'', COPIED, ''knight_01.jpg'', 100), (''Dragon'', COPIED, ''dragon.png'', 100),
        (''Wyvern'', NO_MATCH', [], 0)]"
  by code_simp

lemma demo_effects:
  "effects (fst (main_matcher demo_config exact_fuzz demo_os demo_disk))
     = [Made_dir [''new''],
        Copied_file [''old'', ''knight_01.jpg''] [''new'', ''Knight.png''],
        Copied_file [''old'', ''dragon.png''] [''new'', ''Dragon.png''],
        Wrote_report [''report.csv'']
          (report_rows (fst (main_matcher demo_config exact_fuzz demo_os demo_disk)))]"
  by code_simp

lemma demo_taken:
  "map Action (report_rows (fst (main_matcher demo_config exact_fuzz demo_os demo_disk_taken)))
     = [SKIPPED_EXISTS, COPIED, NO_MATCH']"
  "disk (fst (main_matcher demo_config exact_fuzz demo_os demo_disk_taken))
     [''new'', ''Knight.png''] = Some (Bytes ''earlier art'')"
  by code_simp+

lemma knights_pass:
  "match_one demo_config exact_fuzz demo_os knights (fresh demo_disk) ''Knight''
     = (fst (match_one demo_config exact_fuzz demo_os knights (fresh demo_disk) ''Knight''), None)"
  using knights_first_pass(1) by (simp add: prod_eq_iff)

lemma knights_loop:
  "match_all demo_config exact_fuzz demo_os knights (fresh demo_disk) [''Knight'']
     = (fst (match_one demo_config exact_fuzz demo_os knights (fresh demo_disk) ''Knight''), None)"
  using knights_pass
  by (cases "match_one demo_config exact_fuzz demo_os knights (fresh demo_disk) ''Knight''") simp

lemma knight_target:
  "target_path_for demo_config ''Knight'' = [''new'', ''Knight.png'']"
  "resolve demo_os p = p"
proof -
  have "safe_filename ''Knight'' = ''Knight''" by code_simp
  then show "target_path_for demo_config ''Knight'' = [''new'', ''Knight.png'']"
    by (simp add: target_path_for_def demo_config_def)
  show "resolve demo_os p = p" by (simp add: demo_os_def plain_os_def)
qed

theorem report_source_file_witness:
  "map (\<lambda>row. (Model_Name row, Action row, Source_File row, Score row))
       (report_rows (fst (main_matcher demo_config exact_fuzz demo_os demo_disk)))
     = [(''Knight'', COPIED, ''knight_01.jpg'', 100), (''Dragon'', COPIED, ''dragon.png'', 100),
        (''Wyvern'', NO_MATCH', [], 0)]
   \<and> list_all (\<lambda>row. (Source_File row = []) = (Action row = NO_MATCH'))
       (report_rows (fst (main_matcher demo_config exact_fuzz demo_os demo_disk)))
   \<and> disk (fst (main_matcher demo_config exact_fuzz demo_os demo_disk)) [''report.csv'']
       = Some (Csv (report_rows (fst (main_matcher demo_config exact_fuzz demo_os demo_disk))))
   \<and> map (\<lambda>row. (Model_Name row, Source_File row, Score row))
         (report_rows (fst (match_one demo_config exact_fuzz demo_os knights
                              (fresh demo_disk) ''Knight'')))
       = [(''Knight'', ''knight_01.jpg'', 100)]
   \<and> map Model_Name
         (report_rows (fst (match_all demo_config exact_fuzz demo_os knights
                              (fresh demo_disk) [''Knight''])))
       = [''Knight'']"
proof -
  note c9 = report_source_file [where C = demo_config and F = exact_fuzz and S = demo_os
                                 and d = demo_disk and idx = knights and name = "''Knight''"
                                 and st = "fresh demo_disk" and names = "[''Knight'']"]
  have "\<forall>row \<in> set (report_rows (fst (main_matcher demo_config exact_fuzz demo_os demo_disk))).
          (Source_File row = []) = (Action row = NO_MATCH')"
    using c9 by blast
  then have a: "list_all (\<lambda>row. (Source_File row = []) = (Action row = NO_MATCH'))
                  (report_rows (fst (main_matcher demo_config exact_fuzz demo_os demo_disk)))"
    by (simp only: list_all_iff)
  have "Wrote_report [''report.csv'']
          (report_rows (fst (main_matcher demo_config exact_fuzz demo_os demo_disk)))
        \<in> set (effects (fst (main_matcher demo_config exact_fuzz demo_os demo_disk)))"
    unfolding demo_effects by simp
  with c9 have "disk (fst (main_matcher demo_config exact_fuzz demo_os demo_disk))
                  (resolve demo_os [''report.csv''])
                = Some (Csv (report_rows (fst (main_matcher demo_config exact_fuzz demo_os demo_disk))))"
    by blast
  then have b: "disk (fst (main_matcher demo_config exact_fuzz demo_os demo_disk)) [''report.csv'']
       = Some (Csv (report_rows (fst (main_matcher demo_config exact_fuzz demo_os demo_disk))))"
    by (simp add: demo_os_def plain_os_def)
  from c9 knights_ranked knights_pass obtain row where
    "report_rows (fst (match_one demo_config exact_fuzz demo_os knights (fresh demo_disk) ''Knight''))
       = report_rows (fresh demo_disk) @ [row]"
    "Model_Name row = ''Knight''" "Score row = 100"
    "Source_File row = (if 100 < MIN_SCORE demo_config then []
                        else path_name [''old'', ''knight_01.jpg''])"
    by blast
  then have c: "map (\<lambda>row. (Model_Name row, Source_File row, Score row))
                  (report_rows (fst (match_one demo_config exact_fuzz demo_os knights
                                       (fresh demo_disk) ''Knight'')))
                = [(''Knight'', ''knight_01.jpg'', 100)]"
    by (simp add: fresh_def demo_config_def path_name_def)
  from c9 knights_loop
  have "map Model_Name (report_rows (fst (match_one demo_config exact_fuzz demo_os knights
                                            (fresh demo_disk) ''Knight'')))
          = map Model_Name (report_rows (fresh demo_disk)) @ [''Knight'']"
    by blast
  then have e: "map Model_Name
                  (report_rows (fst (match_all demo_config exact_fuzz demo_os knights
                                       (fresh demo_disk) [''Knight''])))
                = [''Knight'']"
    unfolding knights_loop by (simp add: fresh_def)
  show ?thesis using demo_rows a b c e by (intro conjI)
qed

theorem never_overwrites_witness:
  "demo_disk_taken [''new'', ''Knight.png''] = Some (Bytes ''earlier art'')
   \<and> disk (fst (main_matcher demo_config exact_fuzz demo_os demo_disk_taken))
       [''new'', ''Knight.png''] = Some (Bytes ''earlier art'')
   \<and> Copied_file [''old'', ''knight_01.jpg''] [''new'', ''Knight.png'']
       \<in> set (effects (fst (main_matcher demo_config exact_fuzz demo_os demo_disk)))
   \<and> demo_disk [''new'', ''Knight.png''] = None
   \<and> disk (fst (match_one demo_config exact_fuzz demo_os knights (fresh demo_disk) ''Knight''))
       [''new'', ''Knight.png''] = Some (Bytes ''JPEG knight one'')
   \<and> \<not> path_exists demo_os demo_disk [''new'', ''Knight.png'']
   \<and> disk (fst (match_all demo_config exact_fuzz demo_os knights (fresh demo_disk) [''Knight'']))
       [''old'', ''dragon.png''] = Some (Bytes ''PNG dragon'')"
proof -
  note taken = never_overwrites [of demo_config exact_fuzz demo_os knights "fresh demo_disk_taken"
                                    "''Knight''" "[''Knight'']" demo_disk_taken]
  note plain = never_overwrites [of demo_config exact_fuzz demo_os knights "fresh demo_disk"
                                    "''Knight''" "[''Knight'']" demo_disk]
  let ?st' = "fst (match_one demo_config exact_fuzz demo_os knights (fresh demo_disk) ''Knight'')"
  have a: "demo_disk_taken [''new'', ''Knight.png''] = Some (Bytes ''earlier art'')"
    by (simp add: demo_disk_taken_def)
  have "[''new'', ''Knight.png''] \<noteq> resolve demo_os [REPORT_FILE demo_config]"
    by (simp add: knight_target(2) demo_config_def)
  with taken a
  have b: "disk (fst (main_matcher demo_config exact_fuzz demo_os demo_disk_taken))
             [''new'', ''Knight.png''] = Some (Bytes ''earlier art'')"
    by simp
  have c: "Copied_file [''old'', ''knight_01.jpg''] [''new'', ''Knight.png'']
             \<in> set (effects (fst (main_matcher demo_config exact_fuzz demo_os demo_disk)))"
    unfolding demo_effects by simp
  with plain have "demo_disk (resolve demo_os [''new'', ''Knight.png'']) = None"
    by blast
  then have d: "demo_disk [''new'', ''Knight.png''] = None"
    by (simp only: knight_target(2))
  have e: "disk ?st' [''new'', ''Knight.png''] = Some (Bytes ''JPEG knight one'')"
    by (rule knights_first_pass(4))
  have "disk ?st' \<noteq> disk (fresh demo_disk)"
  proof
    assume "disk ?st' = disk (fresh demo_disk)"
    then have "disk ?st' [''new'', ''Knight.png''] = demo_disk [''new'', ''Knight.png'']"
      by (simp add: fresh_def)
    with d e show False by simp
  qed
  with plain
  have "\<not> path_exists demo_os (disk (fresh demo_disk)) (target_path_for demo_config ''Knight'')"
    by blast
  then have f: "\<not> path_exists demo_os demo_disk [''new'', ''Knight.png'']"
    by (simp add: fresh_def knight_target(1))
  have "disk (fresh demo_disk) [''old'', ''dragon.png''] = Some (Bytes ''PNG dragon'')"
    by (simp add: fresh_def demo_disk_def)
  with plain
  have g: "disk (fst (match_all demo_config exact_fuzz demo_os knights (fresh demo_disk) [''Knight'']))
             [''old'', ''dragon.png''] = Some (Bytes ''PNG dragon'')"
    by (metis option.distinct(1))
  show ?thesis using a b c d e f g by (intro conjI)
qed

theorem copy_is_verbatim_png_witness:
  "name_suffix ''knight_01.jpg'' = ''.jpg''
   \<and> demo_disk [''old'', ''knight_01.jpg''] = Some (Bytes ''JPEG knight one'')
   \<and> disk (fst (match_one demo_config exact_fuzz demo_os knights (fresh demo_disk) ''Knight''))
       [''new'', ''Knight.png''] = Some (Bytes ''JPEG knight one'')
   \<and> Target_File (last (report_rows (fst (match_one demo_config exact_fuzz demo_os knights
                                             (fresh demo_disk) ''Knight'')))) = ''Knight.png''"
proof -
  let ?st' = "fst (match_one demo_config exact_fuzz demo_os knights (fresh demo_disk) ''Knight'')"
  note m = knights_pass
  have a: "Action (last (report_rows ?st')) = COPIED"
    using knights_first_pass(2) by (metis last_map list.distinct(1) list.map_disc_iff last.simps)
  have s: "name_suffix ''knight_01.jpg'' = ''.jpg''" by code_simp
  have f: "safe_filename ''Knight'' = ''Knight''" by code_simp
  have t: "resolve demo_os (target_path_for demo_config ''Knight'') = [''new'', ''Knight.png'']"
    by (simp add: demo_os_def plain_os_def target_path_for_def demo_config_def f)
  have r: "resolve demo_os [''old'', ''knight_01.jpg''] = [''old'', ''knight_01.jpg'']"
    by (simp add: demo_os_def plain_os_def)
  have d: "disk (fresh demo_disk) = demo_disk" by (simp add: fresh_def)
  have k: "demo_disk [''old'', ''knight_01.jpg''] = Some (Bytes ''JPEG knight one'')"
    by (simp add: demo_disk_def)
  show ?thesis
    using copy_is_verbatim_png [OF knights_ranked m a] s f t r d k
    by simp
qed

subsection \<open>Normal forms of names\<close>

lemma lower_char_space: "lower_char (CHR '' '') = CHR '' ''"
  by (simp add: lower_char_def code_def)

lemma lower_char_idem: "lower_char (lower_char c) = lower_char c"
proof -
  have b: "of_char c < (256 :: nat)" by simp
  show ?thesis
    using b unfolding lower_char_def code_def by (auto simp: of_char_of)
qed

lemma space_facts:
  "is_space (CHR '' '')" "\<not> is_sep (CHR '' '')" "is_space (CHR 0x0A)"
  by (simp_all add: is_space_def is_sep_def code_def)

lemma sub_runs_length: "length (sub_runs P s) \<le> length s"
proof (induction P s rule: sub_runs.induct)
  case (1 P)
  show ?case by simp
next
  case (2 P c cs)
  show ?case
  proof (cases "P c")
    case True
    with 2 have "length (sub_runs P (dropWhile P cs)) \<le> length (dropWhile P cs)" by simp
    also have "\<dots> \<le> length cs" by (rule length_dropWhile_le)
    finally show ?thesis using True by simp
  next
    case False
    with 2 show ?thesis by simp
  qed
qed

lemma sub_runs_set: "set (sub_runs P s) \<subseteq> insert (CHR '' '') (set s)"
proof (induction P s rule: sub_runs.induct)
  case (1 P)
  show ?case by simp
next
  case (2 P c cs)
  show ?case
  proof (cases "P c")
    case True
    with 2 have "set (sub_runs P (dropWhile P cs)) \<subseteq> insert (CHR '' '') (set (dropWhile P cs))"
      by simp
    moreover have "set (dropWhile P cs) \<subseteq> set cs"
      by (auto dest: set_dropWhileD)
    ultimately show ?thesis using True by auto
  next
    case False
    with 2 show ?thesis by auto
  qed
qed

lemma sub_runs_none:
  "\<not> P (CHR '' '') \<Longrightarrow> c \<in> set (sub_runs P s) \<Longrightarrow> \<not> P c"
  by (induction P s rule: sub_runs.induct) (auto split: if_splits)

lemma sub_runs_id: "\<forall>c \<in> set s. \<not> P c \<Longrightarrow> sub_runs P s = s"
  by (induction s) simp_all

lemma sub_runs_hd:
  "s = [] \<or> \<not> P (hd s) \<Longrightarrow> sub_runs P s = [] \<or> \<not> P (hd (sub_runs P s))"
  by (cases s) auto

lemma dropWhile_hd: "dropWhile P s = [] \<or> \<not> P (hd (dropWhile P s))"
  by (induction s) auto

lemma sub_runs_spaced: "spaced (sub_runs is_space s)"
proof (induction "is_space" s rule: sub_runs.induct)
  case 1
  show ?case by simp
next
  case (2 c cs)
  show ?case
  proof (cases "is_space c")
    case True
    have "sub_runs is_space (dropWhile is_space cs) = []
          \<or> \<not> is_space (hd (sub_runs is_space (dropWhile is_space cs)))"
      by (rule sub_runs_hd) (rule dropWhile_hd)
    with 2 True show ?thesis by (simp add: space_facts)
  next
    case False
    with 2 show ?thesis by simp
  qed
qed

lemma spaced_id: "spaced s \<Longrightarrow> sub_runs is_space s = s"
proof (induction s)
  case Nil
  show ?case by simp
next
  case (Cons c cs)
  show ?case
  proof (cases "is_space c")
    case True
    with Cons.prems have c: "c = CHR '' ''" and h: "cs = [] \<or> \<not> is_space (hd cs)" by simp_all
    from h have "dropWhile is_space cs = cs" by (cases cs) auto
    with Cons True c show ?thesis by simp
  next
    case False
    with Cons show ?thesis by simp
  qed
qed

lemma spaced_append: "spaced (xs @ ys) \<Longrightarrow> spaced xs"
proof (induction xs)
  case Nil
  show ?case by simp
next
  case (Cons c xs)
  then show ?case by (cases xs) (auto split: if_splits)
qed

lemma spaced_dropWhile: "spaced s \<Longrightarrow> spaced (dropWhile P s)"
  by (induction s) (auto split: if_splits)

lemma strip_prefix: "dropWhile is_space s = strip s @ rev (takeWhile is_space (rev (dropWhile is_space s)))"
proof -
  have "rev (dropWhile is_space s)
          = takeWhile is_space (rev (dropWhile is_space s))
            @ dropWhile is_space (rev (dropWhile is_space s))"
    by simp
  then have "rev (rev (dropWhile is_space s))
          = rev (takeWhile is_space (rev (dropWhile is_space s))
                 @ dropWhile is_space (rev (dropWhile is_space s)))"
    by simp
  then show ?thesis
    unfolding strip_def by (simp only: rev_rev_ident rev_append)
qed

lemma spaced_strip: "spaced s \<Longrightarrow> spaced (strip s)"
proof -
  assume "spaced s"
  then have "spaced (dropWhile is_space s)" by (rule spaced_dropWhile)
  then have "spaced (strip s @ rev (takeWhile is_space (rev (dropWhile is_space s))))"
    using strip_prefix [of s] by simp
  then show ?thesis by (rule spaced_append)
qed

lemma strip_set: "set (strip s) \<subseteq> set s"
proof -
  have "set (strip s) \<subseteq> set (dropWhile is_space s)"
    using strip_prefix [of s] by (metis Un_upper1 set_append)
  also have "\<dots> \<subseteq> set s" by (auto dest: set_dropWhileD)
  finally show ?thesis .
qed

lemma strip_length: "length (strip s) \<le> length s"
proof -
  have "length (strip s) \<le> length (dropWhile is_space s)"
    using strip_prefix [of s] by (metis le_add1 length_append)
  also have "\<dots> \<le> length s" by (rule length_dropWhile_le)
  finally show ?thesis .
qed

lemma strip_ends:
  "strip s = [] \<or> (\<not> is_space (hd (strip s)) \<and> \<not> is_space (last (strip s)))"
proof (cases "strip s = []")
  case True
  then show ?thesis by simp
next
  case False
  let ?t = "dropWhile is_space s"
  have l: "\<not> is_space (last (strip s))"
  proof -
    have "dropWhile is_space (rev ?t) \<noteq> []" using False by (simp add: strip_def)
    then have "\<not> is_space (hd (dropWhile is_space (rev ?t)))" by (simp add: hd_dropWhile)
    then show ?thesis
      using False by (simp add: strip_def last_rev)
  qed
  have "hd (strip s) = hd ?t"
    using strip_prefix [of s] False by (metis hd_append2)
  moreover have "?t \<noteq> []"
  proof
    assume a: "?t = []"
    have "strip s = []" unfolding strip_def a by simp
    with False show False ..
  qed
  ultimately have "\<not> is_space (hd (strip s))" by (simp add: hd_dropWhile)
  with l show ?thesis by simp
qed

lemma strip_id:
  assumes "s = [] \<or> (\<not> is_space (hd s) \<and> \<not> is_space (last s))"
  shows "strip s = s"
proof (cases s)
  case Nil
  then show ?thesis by (simp add: strip_def)
next
  case (Cons c cs)
  with assms have h: "\<not> is_space (hd s)" and l: "\<not> is_space (last s)" by simp_all
  have "dropWhile is_space s = s" using h Cons by simp
  moreover have "dropWhile is_space (rev s) = rev s"
  proof -
    obtain a r where r: "rev s = a # r" using Cons by (cases "rev s") auto
    then have "s = rev (a # r)" by (metis rev_rev_ident)
    then have "last s = a" by simp
    with l r show ?thesis by simp
  qed
  ultimately show ?thesis by (simp add: strip_def)
qed

lemma dollar_split_append:
  assumes "dollar_split s = (body, nl)"
  shows "s = body @ nl"
proof (cases "s \<noteq> [] \<and> last s = CHR 0x0A")
  case True
  then have "dollar_split s = (butlast s, [last s])" by (simp add: dollar_split_def)
  with assms have "body @ nl = butlast s @ [last s]" by simp
  also have "\<dots> = s" using True by (metis append_butlast_last_id)
  finally show ?thesis by simp
next
  case False
  then have "dollar_split s = (s, [])" by (auto simp: dollar_split_def)
  with assms show ?thesis by simp
qed

lemma dollar_split_id: "s = [] \<or> \<not> is_space (last s) \<Longrightarrow> dollar_split s = (s, [])"
  using space_facts(3) by (auto simp: dollar_split_def)

lemma sub_at_end_set: "set (sub_at_end m s) \<subseteq> set s"
proof (cases "dollar_split s")
  case (Pair body nl)
  have s: "s = body @ nl" using Pair by (rule dollar_split_append)
  show ?thesis
  proof (cases "m body")
    case None
    with Pair show ?thesis by (simp add: sub_at_end_def)
  next
    case (Some n)
    have "set (take (length body - n) body) \<subseteq> set body" by (rule set_take_subset)
    with Pair Some s show ?thesis by (auto simp: sub_at_end_def)
  qed
qed

lemma sub_at_end_length: "length (sub_at_end m s) \<le> length s"
proof (cases "dollar_split s")
  case (Pair body nl)
  have s: "s = body @ nl" using Pair by (rule dollar_split_append)
  show ?thesis
    using Pair s by (cases "m body") (simp_all add: sub_at_end_def)
qed

lemma normalise_unfold:
  "normalise x = strip (sub_runs is_space (sub_runs is_sep
                   (sub_at_end digits_at_end (sub_at_end ext_at_end (lower x)))))"
  by (simp add: normalise_def Let_def)

lemma tail_length:
  "length (strip (sub_runs is_space (sub_runs is_sep t))) \<le> length t"
proof -
  have "length (strip (sub_runs is_space (sub_runs is_sep t)))
          \<le> length (sub_runs is_space (sub_runs is_sep t))" by (rule strip_length)
  also have "\<dots> \<le> length (sub_runs is_sep t)" by (rule sub_runs_length)
  also have "\<dots> \<le> length t" by (rule sub_runs_length)
  finally show ?thesis .
qed

text \<open>
  What every value of \<open>normalise\<close> looks like: single spaces as its only whitespace, none
  at either end, no underscore or hyphen, no capital.
\<close>

lemma normalise_shape:
  "spaced (normalise x)"
  "\<forall>c \<in> set (normalise x). \<not> is_sep c"
  "\<forall>c \<in> set (normalise x). lower_char c = c"
  "normalise x = [] \<or> (\<not> is_space (hd (normalise x)) \<and> \<not> is_space (last (normalise x)))"
proof -
  let ?t3 = "sub_at_end digits_at_end (sub_at_end ext_at_end (lower x))"
  let ?t4 = "sub_runs is_sep ?t3"
  let ?t5 = "sub_runs is_space ?t4"
  show "spaced (normalise x)"
    unfolding normalise_unfold by (rule spaced_strip) (rule sub_runs_spaced)
  show "normalise x = [] \<or> (\<not> is_space (hd (normalise x)) \<and> \<not> is_space (last (normalise x)))"
    unfolding normalise_unfold by (rule strip_ends)
  have in5: "c \<in> insert (CHR '' '') (set ?t4)" if "c \<in> set (normalise x)" for c
    using that strip_set [of ?t5] sub_runs_set [of is_space ?t4]
    unfolding normalise_unfold by blast
  show "\<forall>c \<in> set (normalise x). \<not> is_sep c"
  proof
    fix c assume "c \<in> set (normalise x)"
    from in5 [OF this] show "\<not> is_sep c"
      using sub_runs_none [of is_sep c ?t3] space_facts(2) by auto
  qed
  show "\<forall>c \<in> set (normalise x). lower_char c = c"
  proof
    fix c assume "c \<in> set (normalise x)"
    from in5 [OF this] have "c \<in> insert (CHR '' '') (set ?t3)"
      using sub_runs_set [of is_sep ?t3] by blast
    moreover have "set ?t3 \<subseteq> set (lower x)"
      using sub_at_end_set [of digits_at_end "sub_at_end ext_at_end (lower x)"]
            sub_at_end_set [of ext_at_end "lower x"] by blast
    ultimately have "c = CHR '' '' \<or> c \<in> lower_char ` set x"
      by (auto simp: lower_def)
    then show "lower_char c = c"
      by (auto simp: lower_char_space lower_char_idem)
  qed
qed

lemma normal_lower:
  assumes "\<forall>c \<in> set y. lower_char c = c"
  shows "lower y = y"
  unfolding lower_def using assms by (simp add: map_idI)

lemma normal_fixed:
  assumes "spaced y" "\<forall>c \<in> set y. \<not> is_sep c" "\<forall>c \<in> set y. lower_char c = c"
    and e: "y = [] \<or> (\<not> is_space (hd y) \<and> \<not> is_space (last y))"
    and "ext_at_end y = None" "digits_at_end y = None"
  shows "normalise y = y"
proof -
  have d: "dollar_split y = (y, [])" using e by (intro dollar_split_id) auto
  have "sub_at_end ext_at_end y = y" "sub_at_end digits_at_end y = y"
    using d assms(5,6) by (simp_all add: sub_at_end_def)
  then show ?thesis
    unfolding normalise_unfold normal_lower [OF assms(3)]
    using sub_runs_id [of y is_sep] spaced_id [of y] strip_id [OF e] assms(1,2)
    by simp
qed

lemma normal_shrinks:
  assumes l: "\<forall>c \<in> set y. lower_char c = c"
    and e: "y = [] \<or> (\<not> is_space (hd y) \<and> \<not> is_space (last y))"
    and m: "ext_at_end y \<noteq> None \<or> digits_at_end y \<noteq> None"
  shows "length (normalise y) < length y"
proof -
  have d: "dollar_split y = (y, [])" using e by (intro dollar_split_id) auto
  have n: "normalise y = strip (sub_runs is_space (sub_runs is_sep
                           (sub_at_end digits_at_end (sub_at_end ext_at_end y))))"
    unfolding normalise_unfold normal_lower [OF l] ..
  have "length (sub_at_end digits_at_end (sub_at_end ext_at_end y)) < length y"
  proof (cases "ext_at_end y")
    case (Some k)
    then have "0 < k" "y \<noteq> []"
      by (auto simp: ext_at_end_def Let_def split: if_splits)
    then have "length (sub_at_end ext_at_end y) < length y"
      using d Some by (simp add: sub_at_end_def)
    with sub_at_end_length [of digits_at_end "sub_at_end ext_at_end y"]
    show ?thesis by simp
  next
    case None
    with m obtain k where k: "digits_at_end y = Some k" by auto
    then have "0 < k" "y \<noteq> []"
      by (auto simp: digits_at_end_def Let_def split: if_splits)
    then show ?thesis
      using d None k by (simp add: sub_at_end_def)
  qed
  with tail_length [of "sub_at_end digits_at_end (sub_at_end ext_at_end y)"]
  show ?thesis unfolding n by simp
qed

text \<open>
  Claim C2, as the code has it. \<open>Knight_02.png\<close> normalises to \<open>knight\<close>. Normalising
  once more changes nothing exactly when the normalised name ends neither in an
  extension-like suffix (a dot and two to four letters) nor in a digit: the suffix and the
  trailing digits are removed once, and what is left may end in another suffix or in
  other digits.
\<close>

theorem normalise_idempotent_iff:
  "normalise ''Knight_02.png'' = ''knight''
   \<and> (normalise (normalise x) = normalise x)
       = (ext_at_end (normalise x) = None \<and> digits_at_end (normalise x) = None)"
proof
  show "normalise ''Knight_02.png'' = ''knight''" by code_simp
next
  show "(normalise (normalise x) = normalise x)
          = (ext_at_end (normalise x) = None \<and> digits_at_end (normalise x) = None)"
  proof
    assume i: "normalise (normalise x) = normalise x"
    show "ext_at_end (normalise x) = None \<and> digits_at_end (normalise x) = None"
    proof (rule ccontr)
      assume "\<not> (ext_at_end (normalise x) = None \<and> digits_at_end (normalise x) = None)"
      then have "ext_at_end (normalise x) \<noteq> None \<or> digits_at_end (normalise x) \<noteq> None"
        by simp
      from normal_shrinks [OF normalise_shape(3) normalise_shape(4) this]
      show False using i by simp
    qed
  next
    assume "ext_at_end (normalise x) = None \<and> digits_at_end (normalise x) = None"
    then show "normalise (normalise x) = normalise x"
      using normal_fixed [OF normalise_shape] by simp
  qed
qed

theorem normalise_idempotent_iff_witness:
  "normalise ''Knight_02.png'' = ''knight''
   \<and> ext_at_end ''knight'' = None \<and> digits_at_end ''knight'' = None
   \<and> normalise ''knight'' = ''knight''
   \<and> normalise ''Mk.II 3'' = ''mk.ii''
   \<and> ext_at_end ''mk.ii'' = Some 3
   \<and> normalise ''mk.ii'' \<noteq> ''mk.ii''"
proof -
  have k: "ext_at_end ''knight'' = None" "digits_at_end ''knight'' = None"
    by code_simp+
  have m: "normalise ''Mk.II 3'' = ''mk.ii''" "ext_at_end ''mk.ii'' = Some 3"
    by code_simp+
  show ?thesis
    using normalise_idempotent_iff [of "''Knight_02.png''"]
          normalise_idempotent_iff [of "''Mk.II 3''"] k m
    by simp
qed

text \<open>
  Claim C2 as it is written, ``for every string \<open>x\<close>, normalising twice equals normalising
  once'', fails: a name with two extension-like suffixes loses one at each call, and a
  name with two groups of trailing digits loses one at each call.
\<close>

theorem normalise_not_idempotent:
  "normalise ''a.png.jpg'' = ''a.png''
   \<and> normalise (normalise ''a.png.jpg'') = ''a''
   \<and> normalise (normalise ''a.png.jpg'') \<noteq> normalise ''a.png.jpg''
   \<and> normalise ''Knight 1 2'' = ''knight 1''
   \<and> normalise (normalise ''Knight 1 2'') = ''knight''
   \<and> normalise (normalise ''Knight 1 2'') \<noteq> normalise ''Knight 1 2''"
  by code_simp

section \<open>Dry runs\<close>

subsection \<open>The square script\<close>

lemma prepare_dry_run:
  "prepare L (a\<lparr>dry_run := b\<rparr>) i s t rel = prepare L a i s t rel"
  by (auto simp: prepare_def Let_def split: sum.splits prod.splits)

lemma visit_dry:
  "dry_run a \<Longrightarrow>
   visit L a i s t st rel =
     (case prepare L a i s t rel of
        Inl e \<Rightarrow> st\<lparr>failed := failed st + 1, printed := printed st @ [Failed rel e]\<rparr>
      | Inr p \<Rightarrow> st\<lparr>printed := printed st @ [dry_line rel p], changed := changed st + 1\<rparr>)"
  by (simp add: visit_def process_def split: sum.splits)

lemma loop_dry:
  "dry_run a \<Longrightarrow>
   printed (foldl (visit L a i s t) st rels)
     = printed st @ map (\<lambda>rel. case prepare L a i s t rel of
                                  Inl e \<Rightarrow> Failed rel e | Inr p \<Rightarrow> dry_line rel p) rels
   \<and> changed (foldl (visit L a i s t) st rels)
     = changed st + length (filter (\<lambda>rel. \<not> isl (prepare L a i s t rel)) rels)
   \<and> skipped (foldl (visit L a i s t) st rels) = skipped st
   \<and> failed (foldl (visit L a i s t) st rels)
     = failed st + length (filter (\<lambda>rel. isl (prepare L a i s t rel)) rels)"
proof (induction rels arbitrary: st)
  case Nil
  show ?case by simp
next
  case (Cons rel rels)
  let ?st1 = "visit L a i s t st rel"
  note ih = Cons.IH [OF Cons.prems, of ?st1]
  have v: "printed ?st1 = printed st @ [case prepare L a i s t rel of
                                          Inl e \<Rightarrow> Failed rel e | Inr p \<Rightarrow> dry_line rel p]"
    "changed ?st1 = changed st + (if isl (prepare L a i s t rel) then 0 else 1)"
    "skipped ?st1 = skipped st"
    "failed ?st1 = failed st + (if isl (prepare L a i s t rel) then 1 else 0)"
    unfolding visit_dry [OF Cons.prems]
    by (cases "prepare L a i s t rel"; simp)+
  show ?case
    using ih unfolding v by simp
qed

lemma main_square_dry:
  assumes "dry_run a" "is_dir T [folder a]" "\<not> (inplace a \<and> truthy (out a))"
  shows "stdout (main_square L T a)
     = map (\<lambda>rel. case prepare L a [folder a] (square_root_of a) (thumbs_root_of a) rel of
                    Inl e \<Rightarrow> Failed rel e | Inr p \<Rightarrow> dry_line rel p)
           (iter_images T [folder a] (\<not> no_recursive a))
       @ [Done (length (filter (\<lambda>rel. \<not> isl (prepare L a [folder a] (square_root_of a)
                                                  (thumbs_root_of a) rel))
                               (iter_images T [folder a] (\<not> no_recursive a))))
               0
               (length (filter (\<lambda>rel. isl (prepare L a [folder a] (square_root_of a)
                                                (thumbs_root_of a) rel))
                               (iter_images T [folder a] (\<not> no_recursive a))))]"
proof -
  let ?st = "foldl (visit L a [folder a] (square_root_of a) (thumbs_root_of a)) empty_run
               (iter_images T [folder a] (\<not> no_recursive a))"
  have "stdout (main_square L T a)
          = printed ?st @ [Done (changed ?st) (skipped ?st) (failed ?st)]"
    using assms unfolding main_square_def Let_def by auto
  then show ?thesis
    using loop_dry [OF assms(1), of L "[folder a]" "square_root_of a" "thumbs_root_of a"
                      empty_run "iter_images T [folder a] (\<not> no_recursive a)"]
    by (simp add: empty_run_def)
qed

lemma main_square_dry_writes: "dry_run a \<Longrightarrow> writes (main_square L T a) = []"
  by (simp add: main_square_def Let_def loop_dry_written empty_run_def)

subsection \<open>The matcher script\<close>

lemma target_path_for_dry: "target_path_for (C\<lparr>DRY_RUN := b\<rparr>) name = target_path_for C name"
  by (simp add: target_path_for_def)

lemma match_one_dry:
  "DRY_RUN C \<Longrightarrow> disk (fst (match_one C F S idx st name)) = disk st
                 \<and> effects (fst (match_one C F S idx st name)) = effects st"
  unfolding match_one_def Let_def
  by (auto split: list.splits prod.splits if_splits option.splits)

lemma match_all_dry:
  "DRY_RUN C \<Longrightarrow> disk (fst (match_all C F S idx st names)) = disk st
                 \<and> effects (fst (match_all C F S idx st names)) = effects st"
proof (induction names arbitrary: st)
  case Nil
  show ?case by simp
next
  case (Cons name rest)
  obtain st1 e1 where m: "match_one C F S idx st name = (st1, e1)"
    by (cases "match_one C F S idx st name")
  have one: "disk st1 = disk st \<and> effects st1 = effects st"
    using match_one_dry [OF Cons.prems, of F S idx st name] m by simp
  show ?case
  proof (cases e1)
    case None
    with m Cons.IH [OF Cons.prems, of st1] one show ?thesis by simp
  next
    case (Some x)
    with m one show ?thesis by simp
  qed
qed

lemma mkdir_no_copy: "Copied_file src dst \<notin> set (effects (fst (mkdir S q (fresh d))))"
  by (auto simp: mkdir_def fresh_def split: option.splits entry.splits)

lemma main_matcher_dry:
  assumes dry: "DRY_RUN C"
  shows "Copied_file src dst \<notin> set (effects (fst (main_matcher C F S d)))"
proof -
  let ?M = "fst (main_matcher C F S d)"
  let ?st1 = "fst (mkdir S [OUTPUT_DIR C] (fresh d))"
  from main_matcher_shape [of C F S d] show ?thesis
  proof (elim disjE exE conjE)
    assume "silent ?M = silent (fresh d)"
    from silent_eq(2) [OF this] show ?thesis by (simp add: fresh_def)
  next
    assume "silent ?M = silent ?st1"
    from silent_eq(2) [OF this] show ?thesis by (simp add: mkdir_no_copy)
  next
    fix st3 names st4 r4
    assume b: "silent st3 = silent ?st1"
      and ma: "match_all C F S (index_images (image_files_in S (disk st3) [IMAGE_DIR C])) st3 names
                 = (st4, r4)"
    have "effects st4 = effects st3"
      using match_all_dry [OF dry, of F S "index_images (image_files_in S (disk st3) [IMAGE_DIR C])"
                           st3 names] ma
      by simp
    then have e4: "effects st4 = effects ?st1"
      using silent_eq(2) [OF b] by simp
    {
      assume "silent ?M = silent st4"
      from silent_eq(2) [OF this] show ?thesis by (simp add: e4 mkdir_no_copy)
    next
      assume "silent ?M = silent (fst (write_report C S st4))"
      from silent_eq(2) [OF this] show ?thesis
        by (simp add: write_report_effect(1) e4 mkdir_no_copy)
    }
  qed
qed

text \<open>
  A pass of the preview and a pass of the real run, from the same state: when the real
  pass returns, the preview returns too, with the same row and the same printed line, but
  for \<open>DRY_RUN_COPY\<close> where the real pass has \<open>COPIED\<close>, and with the same counters.
\<close>

lemma match_one_same_decision:
  assumes r: "match_one (C\<lparr>DRY_RUN := False\<rparr>) F S idx st name = (st_r, None)"
  shows "\<exists>row act msg st_d.
           match_one (C\<lparr>DRY_RUN := True\<rparr>) F S idx st name = (st_d, None)
           \<and> report_rows st_r = report_rows st @ [row]
           \<and> report_rows st_d = report_rows st @ [row\<lparr>Action := as_dry (Action row)\<rparr>]
           \<and> prints st_r = prints st @ [Progress (status_icon act) name msg]
           \<and> prints st_d = prints st @ [Progress (status_icon (as_dry act)) name msg]
           \<and> Action row = act
           \<and> copied st_d = copied st_r \<and> skipped_exists st_d = skipped_exists st_r
           \<and> already_exists st_d = already_exists st_r \<and> no_match st_d = no_match st_r"
proof (cases "sort_candidates (candidates_for F idx name)")
  case Nil
  with r show ?thesis by (simp add: match_one_empty)
next
  case (Cons best rest)
  obtain bp bn bs where b: "best = (bp, bn, bs)" by (cases best)
  show ?thesis
    using r unfolding match_one_def Let_def Cons b target_path_for_dry
    by (auto simp: as_dry_def copy2_def
             split: if_splits option.splits entry.splits prod.splits)
qed




end
